theory Spec2Isabelle
  imports Main "HOL-Library.Sublist" "HOL-Library.Monad_Syntax"
begin

section \<open>Strings\<close>

text \<open>
  A JavaScript string is modelled as a \<^typ>\<open>string\<close>: a list of code units, here
  restricted to the code units below 256. The colour tokens, selectors, import specifiers
  and variable names the scanner looks for are all ASCII. Numbers are the integers the
  code computes with (offsets, indices, lengths).
\<close>

definition code :: "char \<Rightarrow> nat" where
  \<comment> \<open>\<open>s.charCodeAt(i)\<close> of one code unit\<close>
  "code c = of_char c"

definition startsWith :: "string \<Rightarrow> string \<Rightarrow> bool" where
  \<comment> \<open>\<open>s.startsWith(p)\<close>\<close>
  "startsWith s p = (take (length p) s = p)"

definition endsWith :: "string \<Rightarrow> string \<Rightarrow> bool" where
  "endsWith s p = (length p \<le> length s \<and> drop (length s - length p) s = p)"

definition isSpace :: "char \<Rightarrow> bool" where
  \<comment> \<open>the class \<open>\s\<close>, which is also what \<open>trim\<close> removes: tab, the line terminators,
     vertical tab, form feed, space and no-break space\<close>
  "isSpace c = (code c = 9 \<or> code c = 10 \<or> code c = 11 \<or> code c = 12 \<or> code c = 13
                \<or> code c = 32 \<or> code c = 160)"


definition isDigit :: "char \<Rightarrow> bool" where
  \<comment> \<open>\<open>\d\<close>, \<open>[0-9]\<close>\<close>
  "isDigit c = (48 \<le> code c \<and> code c \<le> 57)"

definition isUpper :: "char \<Rightarrow> bool" where
  "isUpper c = (65 \<le> code c \<and> code c \<le> 90)"

definition isLower :: "char \<Rightarrow> bool" where
  "isLower c = (97 \<le> code c \<and> code c \<le> 122)"

definition isHexDigit :: "char \<Rightarrow> bool" where
  \<comment> \<open>\<open>[0-9a-fA-F]\<close>\<close>
  "isHexDigit c = (isDigit c \<or> (97 \<le> code c \<and> code c \<le> 102) \<or> (65 \<le> code c \<and> code c \<le> 70))"

definition isWordChar :: "char \<Rightarrow> bool" where
  \<comment> \<open>\<open>\w\<close>, the class \<open>\b\<close> is defined by\<close>
  "isWordChar c = (isDigit c \<or> isUpper c \<or> isLower c \<or> c = CHR ''_'')"

definition isNameChar :: "char \<Rightarrow> bool" where
  \<comment> \<open>\<open>[A-Za-z0-9_-]\<close>\<close>
  "isNameChar c = (isWordChar c \<or> c = CHR ''-'')"

definition toLower :: "char \<Rightarrow> char" where
  \<comment> \<open>\<open>toLowerCase\<close> of one code unit below 256: the letters A-Z and the Latin-1 capitals
     move up by 32, that is, bit 5 is set\<close>
  "toLower c =
     (if isUpper c \<or> (192 \<le> code c \<and> code c \<le> 222 \<and> code c \<noteq> 215)
      then Char (digit0 c) (digit1 c) (digit2 c) (digit3 c) (digit4 c) True (digit6 c) (digit7 c)
      else c)"

definition toLowerCase :: "string \<Rightarrow> string" where
  "toLowerCase s = map toLower s"

definition trim :: "string \<Rightarrow> string" where
  "trim s = rev (dropWhile isSpace (rev (dropWhile isSpace s)))"

definition removeSpaces :: "string \<Rightarrow> string" where
  \<comment> \<open>\<open>s.replace(/\s+/g, "")\<close>\<close>
  "removeSpaces s = filter (\<lambda>c. \<not> isSpace c) s"

fun indexOf_from :: "string \<Rightarrow> string \<Rightarrow> nat \<Rightarrow> int" where
  "indexOf_from [] sub i = (if sub = [] then int i else - 1)"
| "indexOf_from (c # cs) sub i =
     (if startsWith (c # cs) sub then int i else indexOf_from cs sub (Suc i))"

definition indexOf :: "string \<Rightarrow> string \<Rightarrow> int" where
  \<comment> \<open>\<open>s.indexOf(sub)\<close>: the first position of \<open>sub\<close> in \<open>s\<close>, or -1\<close>
  "indexOf s sub = indexOf_from s sub 0"

definition js_index :: "'a list \<Rightarrow> int \<Rightarrow> 'a option" where
  \<comment> \<open>\<open>xs[i]\<close>: \<open>undefined\<close> (here \<open>None\<close>) outside the array\<close>
  "js_index xs i = (if 0 \<le> i \<and> i < int (length xs) then Some (xs ! nat i) else None)"

section \<open>Regular expressions\<close>

text \<open>
  The scanner finds its tokens with regular expressions. A regular expression is modelled
  as the backtracking matcher the language defines for it: a matcher takes the
  continuation (what must match after it) and the state, which is the captures so far,
  the character before the current position (for \<open>\b\<close>) and the rest of the input. It
  tries its alternatives in the order of the language: a greedy quantifier the longest
  first, a lazy one the shortest first, \<open>a|b\<close> the left one first. The patterns of the
  extension repeat only character classes, so each matcher is a structural recursion
  over the input.
\<close>

type_synonym rx_cont = "string list \<Rightarrow> char option \<Rightarrow> string \<Rightarrow> (string list \<times> string) option"
type_synonym rx = "rx_cont \<Rightarrow> rx_cont"

definition rx_done :: rx_cont where
  \<comment> \<open>the end of the pattern: the captures and the input left after the match\<close>
  "rx_done caps prev rest = Some (caps, rest)"

definition rx_lit :: "string \<Rightarrow> rx" where
  \<comment> \<open>a literal (never empty)\<close>
  "rx_lit s k caps prev rest =
     (if startsWith rest s then k caps (Some (last s)) (drop (length s) rest) else None)"

definition rx_lit_ci :: "string \<Rightarrow> rx" where
  \<comment> \<open>a literal under the flag \<open>i\<close>\<close>
  "rx_lit_ci s k caps prev rest =
     (if length s \<le> length rest \<and> toLowerCase (take (length s) rest) = toLowerCase s
      then k caps (Some (rest ! (length s - 1))) (drop (length s) rest) else None)"

definition rx_one :: "(char \<Rightarrow> bool) \<Rightarrow> rx" where
  \<comment> \<open>one character of a class\<close>
  "rx_one ok k caps prev rest =
     (case rest of [] \<Rightarrow> None | c # cs \<Rightarrow> if ok c then k caps (Some c) cs else None)"

fun rx_star :: "(char \<Rightarrow> bool) \<Rightarrow> rx" where
  \<comment> \<open>\<open>[class]*\<close>, greedy\<close>
  "rx_star ok k caps prev [] = k caps prev []"
| "rx_star ok k caps prev (c # cs) =
     (if ok c then
        (case rx_star ok k caps (Some c) cs of
           Some r \<Rightarrow> Some r
         | None \<Rightarrow> k caps prev (c # cs))
      else k caps prev (c # cs))"

fun rx_lazy_star :: "(char \<Rightarrow> bool) \<Rightarrow> rx" where
  \<comment> \<open>\<open>[class]*?\<close>, lazy\<close>
  "rx_lazy_star ok k caps prev [] = k caps prev []"
| "rx_lazy_star ok k caps prev (c # cs) =
     (case k caps prev (c # cs) of
        Some r \<Rightarrow> Some r
      | None \<Rightarrow> if ok c then rx_lazy_star ok k caps (Some c) cs else None)"

definition rx_plus :: "(char \<Rightarrow> bool) \<Rightarrow> rx" where
  \<comment> \<open>\<open>[class]+\<close>, greedy\<close>
  "rx_plus ok k = rx_one ok (rx_star ok k)"

fun rx_upto :: "nat \<Rightarrow> (char \<Rightarrow> bool) \<Rightarrow> rx" where
  \<comment> \<open>\<open>[class]{0,n}\<close>, greedy\<close>
  "rx_upto 0 ok k caps prev rest = k caps prev rest"
| "rx_upto (Suc n) ok k caps prev [] = k caps prev []"
| "rx_upto (Suc n) ok k caps prev (c # cs) =
     (if ok c then
        (case rx_upto n ok k caps (Some c) cs of
           Some r \<Rightarrow> Some r
         | None \<Rightarrow> k caps prev (c # cs))
      else k caps prev (c # cs))"

fun rx_exactly :: "nat \<Rightarrow> (char \<Rightarrow> bool) \<Rightarrow> rx" where
  \<comment> \<open>\<open>[class]{n}\<close>\<close>
  "rx_exactly 0 ok k = k"
| "rx_exactly (Suc n) ok k = rx_one ok (rx_exactly n ok k)"

definition rx_between :: "nat \<Rightarrow> nat \<Rightarrow> (char \<Rightarrow> bool) \<Rightarrow> rx" where
  \<comment> \<open>\<open>[class]{lo,hi}\<close>, greedy\<close>
  "rx_between lo hi ok k = rx_exactly lo ok (rx_upto (hi - lo) ok k)"

definition rx_alt :: "rx \<Rightarrow> rx \<Rightarrow> rx" where
  \<comment> \<open>\<open>a|b\<close>\<close>
  "rx_alt a b k caps prev rest =
     (case a k caps prev rest of Some r \<Rightarrow> Some r | None \<Rightarrow> b k caps prev rest)"

definition rx_opt :: "rx \<Rightarrow> rx" where
  \<comment> \<open>\<open>(?:a)?\<close>, greedy\<close>
  "rx_opt a k caps prev rest =
     (case a k caps prev rest of Some r \<Rightarrow> Some r | None \<Rightarrow> k caps prev rest)"

definition rx_cap :: "rx \<Rightarrow> rx" where
  \<comment> \<open>a capturing group: what the group consumed is appended to the captures\<close>
  "rx_cap a k caps prev rest =
     a (\<lambda>caps' prev' rest'. k (caps' @ [take (length rest - length rest') rest]) prev' rest')
       caps prev rest"

definition rx_wordb :: rx where
  \<comment> \<open>\<open>\b\<close>: exactly one of the two neighbours is a word character\<close>
  "rx_wordb k caps prev rest =
     (if (case prev of None \<Rightarrow> False | Some c \<Rightarrow> isWordChar c)
         \<noteq> (case rest of [] \<Rightarrow> False | c # _ \<Rightarrow> isWordChar c)
      then k caps prev rest else None)"

definition rx_eol :: rx where
  \<comment> \<open>\<open>$\<close> without the flag \<open>m\<close>: the end of the input\<close>
  "rx_eol k caps prev rest = (if rest = [] then k caps prev rest else None)"

record rx_match =
  m_index :: nat
  m_text :: string
  m_groups :: "string list"

definition rx_at :: "rx \<Rightarrow> nat \<Rightarrow> char option \<Rightarrow> string \<Rightarrow> rx_match option" where
  \<comment> \<open>the match that starts at the current position, if there is one\<close>
  "rx_at r idx prev rest =
     (case r rx_done [] prev rest of
        None \<Rightarrow> None
      | Some (caps, rest') \<Rightarrow>
          Some \<lparr>m_index = idx, m_text = take (length rest - length rest') rest, m_groups = caps\<rparr>)"

fun rx_search :: "rx \<Rightarrow> nat \<Rightarrow> char option \<Rightarrow> string \<Rightarrow> rx_match option" where
  \<comment> \<open>\<open>s.match(re)\<close> for a pattern without the flag \<open>g\<close>: the leftmost match\<close>
  "rx_search r idx prev [] = rx_at r idx prev []"
| "rx_search r idx prev (c # cs) =
     (case rx_at r idx prev (c # cs) of
        Some m \<Rightarrow> Some m
      | None \<Rightarrow> rx_search r (Suc idx) (Some c) cs)"

function rx_all :: "rx \<Rightarrow> nat \<Rightarrow> char option \<Rightarrow> string \<Rightarrow> rx_match list" where
  \<comment> \<open>\<open>text.matchAll(re)\<close> from the current position: after a match the search goes on at
     its end (one further when the match is empty)\<close>
  "rx_all r idx prev rest =
     (case rx_at r idx prev rest of
        None \<Rightarrow> (case rest of [] \<Rightarrow> [] | c # cs \<Rightarrow> rx_all r (Suc idx) (Some c) cs)
      | Some m \<Rightarrow>
          (if m_text m = [] then
             m # (case rest of [] \<Rightarrow> [] | c # cs \<Rightarrow> rx_all r (Suc idx) (Some c) cs)
           else
             m # rx_all r (idx + length (m_text m)) (Some (last (m_text m)))
                   (drop (length (m_text m)) rest)))"
  by pat_completeness auto
termination
proof (relation "measure (\<lambda>(r, idx, prev, rest). length rest)")
  show "wf (measure (\<lambda>(r, idx, prev, rest). length rest))" by simp
next
  fix r idx prev rest c cs
  assume "rest = c # cs"
  then show "((r, Suc idx, Some c, cs), r, idx, prev, rest) \<in> measure (\<lambda>(r, idx, prev, rest). length rest)"
    by simp
next
  fix r idx prev rest m c cs
  assume "rest = c # cs"
  then show "((r, Suc idx, Some c, cs), r, idx, prev, rest) \<in> measure (\<lambda>(r, idx, prev, rest). length rest)"
    by simp
next
  fix r idx prev rest m
  assume m: "rx_at r idx prev rest = Some m" and ne: "m_text m \<noteq> []"
  from m have "m_text m = take (length (m_text m)) rest"
    by (auto simp: rx_at_def split: option.splits)
  with ne have "rest \<noteq> []" by auto
  with ne show "((r, idx + length (m_text m), Some (last (m_text m)), drop (length (m_text m)) rest),
           r, idx, prev, rest) \<in> measure (\<lambda>(r, idx, prev, rest). length rest)"
    by simp
qed

declare rx_all.simps [simp del]

definition matchAll :: "rx \<Rightarrow> string \<Rightarrow> rx_match list" where
  "matchAll r text = rx_all r 0 None text"

definition match1 :: "rx \<Rightarrow> string \<Rightarrow> rx_match option" where
  "match1 r text = rx_search r 0 None text"

subsection \<open>Matchers only consume\<close>

definition shrinks :: "rx_cont \<Rightarrow> bool" where
  \<comment> \<open>what the continuation leaves of the input is no longer than what it was given\<close>
  "shrinks k = (\<forall>caps prev rest res. k caps prev rest = Some res \<longrightarrow> length (snd res) \<le> length rest)"

definition rx_shrinks :: "rx \<Rightarrow> bool" where
  "rx_shrinks r = (\<forall>k. shrinks k \<longrightarrow> shrinks (r k))"

section \<open>Import resolver\<close>

subsection \<open>Followability filter\<close>

datatype import_kind = Js | Css

text \<open>
  \<open>isFollowable\<close> of the occurrence-list variant of the extension (the one that
  declares \<open>ColorOccur\<close> and \<open>ColorEntry\<close>):
  \<^verbatim>\<open>
  if (spec.startsWith("./") || spec.startsWith("../")) { return true; }
  if (spec.startsWith("/")) { return true; }
  if (spec.startsWith("@/") || spec.startsWith("~/")) { return true; }
  if (kind === "css" && !spec.startsWith(".") && !spec.startsWith("@") && !spec.startsWith("~")) {
    return true;
  }
  return false;
  \<close>
\<close>

definition isFollowable :: "string \<Rightarrow> import_kind \<Rightarrow> bool" where
  "isFollowable spec kind =
     (if startsWith spec ''./'' \<or> startsWith spec ''../'' then True
      else if startsWith spec ''/'' then True
      else if startsWith spec ''@/'' \<or> startsWith spec ''~/'' then True
      else if kind = Css \<and> \<not> startsWith spec ''.'' \<and> \<not> startsWith spec ''@''
                \<and> \<not> startsWith spec ''~'' then True
      else False)"

text \<open>
  \<open>isFollowable\<close> of the theme-classifying variant (and, with the same body, of the
  variant without themes):
  \<^verbatim>\<open>
  if (spec.startsWith("./") || spec.startsWith("../")) return true;
  if (spec.startsWith("/")) return true;
  if (spec.startsWith("@/") || spec.startsWith("~/")) return true;
  if (kind === "css" && !spec.startsWith("http") && !spec.startsWith("data:")) {
    return true;
  }
  return false;
  \<close>
\<close>

definition isFollowable_theme :: "string \<Rightarrow> import_kind \<Rightarrow> bool" where
  "isFollowable_theme spec kind =
     (if startsWith spec ''./'' \<or> startsWith spec ''../'' then True
      else if startsWith spec ''/'' then True
      else if startsWith spec ''@/'' \<or> startsWith spec ''~/'' then True
      else if kind = Css \<and> \<not> startsWith spec ''http'' \<and> \<not> startsWith spec ''data:'' then True
      else False)"

subsection \<open>Import statements\<close>

record ImportSpec =
  i_spec :: string
  i_kind :: import_kind

definition isQuote :: "char \<Rightarrow> bool" where
  \<comment> \<open>\<open>["']\<close>\<close>
  "isQuote c = (c = CHR 0x22 \<or> c = CHR 0x27)"

definition importFrom :: rx where
  \<comment> \<open>\<open>/\bimport\s+[^;]*?\s+from\s+["']([^"']+)["']/g\<close>\<close>
  "importFrom =
     rx_wordb \<circ> rx_lit ''import'' \<circ> rx_plus isSpace \<circ> rx_lazy_star (\<lambda>c. c \<noteq> CHR '';'')
     \<circ> rx_plus isSpace \<circ> rx_lit ''from'' \<circ> rx_plus isSpace
     \<circ> rx_one isQuote \<circ> rx_cap (rx_plus (\<lambda>c. \<not> isQuote c)) \<circ> rx_one isQuote"

definition importBare :: rx where
  \<comment> \<open>\<open>/\bimport\s+["']([^"']+)["']/g\<close>\<close>
  "importBare =
     rx_wordb \<circ> rx_lit ''import'' \<circ> rx_plus isSpace
     \<circ> rx_one isQuote \<circ> rx_cap (rx_plus (\<lambda>c. \<not> isQuote c)) \<circ> rx_one isQuote"

definition requireRe :: rx where
  \<comment> \<open>\<open>/\brequire\(\s*["']([^"']+)["']\s*\)/g\<close>\<close>
  "requireRe =
     rx_wordb \<circ> rx_lit ''require('' \<circ> rx_star isSpace
     \<circ> rx_one isQuote \<circ> rx_cap (rx_plus (\<lambda>c. \<not> isQuote c)) \<circ> rx_one isQuote
     \<circ> rx_star isSpace \<circ> rx_lit '')''"

definition cssImport :: rx where
  \<comment> \<open>\<open>/@import\s+(?:url\(\s*)?["']([^"']+)["']\s*\)?/g\<close>\<close>
  "cssImport =
     rx_lit ''@import'' \<circ> rx_plus isSpace \<circ> rx_opt (rx_lit ''url('' \<circ> rx_star isSpace)
     \<circ> rx_one isQuote \<circ> rx_cap (rx_plus (\<lambda>c. \<not> isQuote c)) \<circ> rx_one isQuote
     \<circ> rx_star isSpace \<circ> rx_opt (rx_lit '')'')"

definition rx_group :: "rx_match \<Rightarrow> nat \<Rightarrow> string" where
  \<comment> \<open>\<open>m[n]\<close> for \<open>n \<ge> 1\<close>; every pattern here fills all of its groups when it matches\<close>
  "rx_group m n = (case drop (n - 1) (m_groups m) of [] \<Rightarrow> [] | g # _ \<Rightarrow> g)"

definition kind_name :: "import_kind \<Rightarrow> string" where
  "kind_name kind = (case kind of Js \<Rightarrow> ''js'' | Css \<Rightarrow> ''css'')"

text \<open>
  \<^verbatim>\<open>
  const add = (spec, kind) => {
    const key = `${kind}:${spec}`;
    if (!seen.has(key)) { seen.add(key); results.push({ spec: spec.trim(), kind }); }
  };
  \<close>
  The state of \<open>findImports\<close> is the pair of \<open>results\<close> and \<open>seen\<close>.
\<close>

definition add_import :: "import_kind \<Rightarrow> rx_match \<Rightarrow> ImportSpec list \<times> string set \<Rightarrow> ImportSpec list \<times> string set" where
  "add_import kind m st =
     (let results = fst st; seen = snd st; spec = rx_group m 1;
          key = kind_name kind @ '':'' @ spec
      in if key \<notin> seen
         then (results @ [\<lparr>i_spec = trim spec, i_kind = kind\<rparr>], insert key seen)
         else st)"

definition findImports :: "string \<Rightarrow> ImportSpec list" where
  "findImports text =
     fst (fold (add_import Css) (matchAll cssImport text)
         (fold (add_import Js) (matchAll requireRe text)
         (fold (add_import Js) (matchAll importBare text)
         (fold (add_import Js) (matchAll importFrom text) ([], {})))))"

subsection \<open>Candidate paths\<close>

text \<open>
  The editor's file system and URI functions are the host of the resolver. A URI is a value
  of a type \<open>'u\<close> of the host: \<open>readFile\<close> is \<open>readUriText\<close> (\<open>None\<close> when the read
  throws), \<open>fileExists\<close> is \<open>exists\<close> (a successful \<open>stat\<close>), \<open>joinPath\<close> and \<open>parseUri\<close>
  are \<open>vscode.Uri.joinPath\<close> and \<open>vscode.Uri.parse\<close>, and \<open>uriToString\<close> is
  \<open>uri.toString()\<close>.
\<close>

record 'u host =
  readFile :: "'u \<Rightarrow> string option"
  fileExists :: "'u \<Rightarrow> bool"
  joinPath :: "'u \<Rightarrow> string \<Rightarrow> 'u"
  parseUri :: "string \<Rightarrow> 'u"
  uriToString :: "'u \<Rightarrow> string"

definition isAlnum :: "char \<Rightarrow> bool" where
  \<comment> \<open>\<open>[a-zA-Z0-9]\<close>\<close>
  "isAlnum c = (isLower c \<or> isUpper c \<or> isDigit c)"

definition hasExt :: "string \<Rightarrow> bool" where
  \<comment> \<open>\<open>/\.[a-zA-Z0-9]+$/.test(spec)\<close>\<close>
  "hasExt spec = (match1 (rx_lit ''.'' \<circ> rx_plus isAlnum \<circ> rx_eol) spec \<noteq> None)"

definition exts :: "string list" where
  "exts = [''.ts'', ''.tsx'', ''.js'', ''.jsx'', ''.css'', ''.scss'', ''.sass'', ''.less'',
           ''.json'', ''.vue'', ''.svelte'', ''.html'']"

definition resolveWithExtensions :: "'u host \<Rightarrow> 'u \<Rightarrow> string \<Rightarrow> 'u list" where
  "resolveWithExtensions h raw spec =
     (if hasExt spec then [raw]
      else map (\<lambda>ext. parseUri h (uriToString h raw @ ext)) exts
           @ map (\<lambda>ext. joinPath h raw (''index'' @ ext)) exts)"

definition resolveImportCandidates :: "'u host \<Rightarrow> 'u \<Rightarrow> 'u \<Rightarrow> string \<Rightarrow> import_kind \<Rightarrow> 'u list" where
  "resolveImportCandidates h baseFile wsRoot spec kind =
     (let s = trim spec in
      if startsWith s ''/'' then
        (let without = dropWhile (\<lambda>c. c = CHR ''/'') s
         in resolveWithExtensions h (joinPath h wsRoot without) s)
      else if startsWith s ''@/'' \<or> startsWith s ''~/'' then
        (let without = drop 2 s
         in resolveWithExtensions h (joinPath h wsRoot without) s)
      else if startsWith s ''./'' \<or> startsWith s ''../'' then
        (let baseDir = joinPath h baseFile ''..''
         in resolveWithExtensions h (joinPath h baseDir s) s)
      else if kind = Css then
        (let baseDir = joinPath h baseFile ''..''
         in resolveWithExtensions h (joinPath h baseDir s) s)
      else [])"

subsection \<open>Traversal\<close>

text \<open>
  \<open>collectImportGraph\<close> is the same loop in every variant of the extension; the variants
  differ in the \<open>isFollowable\<close> it calls, which is the parameter \<open>follow\<close> here.
  \<^verbatim>\<open>
  const visited = new Set<string>();
  const queue: vscode.Uri[] = [root];
  const out: vscode.Uri[] = [];
  while (queue.length && out.length < maxFiles) {
    const uri = queue.shift()!;
    const key = uri.toString();
    if (visited.has(key)) { continue; }
    visited.add(key);
    out.push(uri);
    let text = "";
    try { text = await readUriText(uri); } catch { continue; }
    const imports = findImports(text);
    for (const imp of imports) {
      if (!isFollowable(imp.spec, imp.kind)) { continue; }
      const candidates = resolveImportCandidates(uri, wsRoot, imp.spec, imp.kind);
      for (const c of candidates) {
        if (await exists(c)) { queue.push(c); break; }
      }
    }
  }
  return out;
  \<close>
  The state of the loop is \<open>queue\<close>, \<open>visited\<close> and \<open>out\<close>. The field \<open>events\<close> is not a
  variable of the source: it logs every \<open>queue.shift()\<close> and every call of
  \<open>readUriText\<close>, so that the claims about them can be stated.
\<close>

datatype 'u event = Dequeued 'u | ReadText 'u

record 'u graph_state =
  queue :: "'u list"
  visited :: "string set"
  out :: "'u list"
  events :: "'u event list"

definition enqueueImports ::
  "(string \<Rightarrow> import_kind \<Rightarrow> bool) \<Rightarrow> 'u host \<Rightarrow> 'u \<Rightarrow> 'u \<Rightarrow> ImportSpec list \<Rightarrow> 'u list \<Rightarrow> 'u list" where
  \<comment> \<open>the \<open>for (const imp of imports)\<close> loop, on the queue\<close>
  "enqueueImports follow h wsRoot uri imports q =
     fold (\<lambda>imp q.
             if \<not> follow (i_spec imp) (i_kind imp) then q
             else (case find (fileExists h)
                         (resolveImportCandidates h uri wsRoot (i_spec imp) (i_kind imp)) of
                     None \<Rightarrow> q
                   | Some c \<Rightarrow> q @ [c]))
          imports q"

definition graph_step ::
  "(string \<Rightarrow> import_kind \<Rightarrow> bool) \<Rightarrow> 'u host \<Rightarrow> 'u \<Rightarrow> int \<Rightarrow> 'u graph_state \<Rightarrow> 'u graph_state option" where
  \<comment> \<open>one iteration of the \<open>while\<close> loop; \<open>None\<close> when its condition is false\<close>
  "graph_step follow h wsRoot maxFiles s =
     (case queue s of
        [] \<Rightarrow> None
      | uri # rest \<Rightarrow>
          if \<not> int (length (out s)) < maxFiles then None
          else
            (let key = uriToString h uri;
                 s1 = s\<lparr>queue := rest, events := events s @ [Dequeued uri]\<rparr>
             in if key \<in> visited s then Some s1
                else
                  (let s2 = s1\<lparr>visited := insert key (visited s1), out := out s1 @ [uri],
                                events := events s1 @ [ReadText uri]\<rparr>
                   in case readFile h uri of
                        None \<Rightarrow> Some s2
                      | Some text \<Rightarrow>
                          Some (s2\<lparr>queue :=
                                  enqueueImports follow h wsRoot uri (findImports text) (queue s2)\<rparr>))))"

function collect_loop ::
  "(string \<Rightarrow> import_kind \<Rightarrow> bool) \<Rightarrow> 'u host \<Rightarrow> 'u \<Rightarrow> int \<Rightarrow> 'u graph_state \<Rightarrow> 'u graph_state" where
  "collect_loop follow h wsRoot maxFiles s =
     (case graph_step follow h wsRoot maxFiles s of
        None \<Rightarrow> s
      | Some s' \<Rightarrow> collect_loop follow h wsRoot maxFiles s')"
  by pat_completeness auto
termination
proof (relation "measures [\<lambda>(follow, h, wsRoot, maxFiles, s). nat (maxFiles - int (length (out s))),
                           \<lambda>(follow, h, wsRoot, maxFiles, s). length (queue s)]")
  show "wf (measures [\<lambda>(follow, h, wsRoot, maxFiles, s). nat (maxFiles - int (length (out s))),
                      \<lambda>(follow, h, wsRoot, maxFiles, s). length (queue (s :: 'u graph_state))])"
    by simp
next
  fix follow and h :: "'u host" and wsRoot maxFiles and s s' :: "'u graph_state"
  assume "graph_step follow h wsRoot maxFiles s = Some s'"
  then show "((follow, h, wsRoot, maxFiles, s'), follow, h, wsRoot, maxFiles, s)
          \<in> measures [\<lambda>(follow, h, wsRoot, maxFiles, s). nat (maxFiles - int (length (out s))),
                       \<lambda>(follow, h, wsRoot, maxFiles, s). length (queue s)]"
    by (auto simp: graph_step_def Let_def split: list.splits if_splits option.splits)
qed

declare collect_loop.simps [simp del]

definition collectImportGraph_run ::
  "(string \<Rightarrow> import_kind \<Rightarrow> bool) \<Rightarrow> 'u host \<Rightarrow> 'u \<Rightarrow> 'u \<Rightarrow> int \<Rightarrow> 'u graph_state" where
  \<comment> \<open>the state in which the loop ends\<close>
  "collectImportGraph_run follow h root wsRoot maxFiles =
     collect_loop follow h wsRoot maxFiles \<lparr>queue = [root], visited = {}, out = [], events = []\<rparr>"

definition collectImportGraph ::
  "(string \<Rightarrow> import_kind \<Rightarrow> bool) \<Rightarrow> 'u host \<Rightarrow> 'u \<Rightarrow> 'u \<Rightarrow> int \<Rightarrow> 'u list" where
  \<comment> \<open>\<open>follow\<close> is \<open>isFollowable\<close> in the occurrence-list variant and
     \<open>isFollowable_theme\<close> in the other two\<close>
  "collectImportGraph follow h root wsRoot maxFiles =
     out (collectImportGraph_run follow h root wsRoot maxFiles)"

fun readsOf :: "'u event list \<Rightarrow> 'u list" where
  \<comment> \<open>the files read, in the order of the calls\<close>
  "readsOf [] = []"
| "readsOf (ReadText u # es) = u # readsOf es"
| "readsOf (Dequeued u # es) = readsOf es"

fun dequeuesOf :: "'u event list \<Rightarrow> 'u list" where
  \<comment> \<open>the files taken off the queue, in the order of the calls\<close>
  "dequeuesOf [] = []"
| "dequeuesOf (Dequeued u # es) = u # dequeuesOf es"
| "dequeuesOf (ReadText u # es) = dequeuesOf es"

definition importsOf ::
  "(string \<Rightarrow> import_kind \<Rightarrow> bool) \<Rightarrow> 'u host \<Rightarrow> 'u \<Rightarrow> 'u \<Rightarrow> 'u list" where
  \<comment> \<open>the explicit-import graph: the files the loop pushes on the queue when it visits \<open>uri\<close>\<close>
  "importsOf follow h wsRoot uri =
     (case readFile h uri of
        None \<Rightarrow> []
      | Some text \<Rightarrow> enqueueImports follow h wsRoot uri (findImports text) [])"

definition importClosure ::
  "(string \<Rightarrow> import_kind \<Rightarrow> bool) \<Rightarrow> 'u host \<Rightarrow> 'u \<Rightarrow> 'u \<Rightarrow> 'u set" where
  \<comment> \<open>the files reachable from the root along explicit imports\<close>
  "importClosure follow h wsRoot root =
     {v. (root, v) \<in> {(u, w). w \<in> set (importsOf follow h wsRoot u)}\<^sup>*}"

text \<open>
  A workspace of two style sheets that import each other: \<open>/w/a.css\<close> holds
  \<open>@import "b.css";\<close> and \<open>/w/b.css\<close> holds \<open>@import "a.css";\<close>. URIs are their strings;
  \<open>joinPath\<close> is given for the files of the folder \<open>/w\<close>.
\<close>

definition cycle_host :: "string host" where
  "cycle_host =
     \<lparr>readFile = (\<lambda>u. if u = ''/w/a.css'' then Some (''@import '' @ [CHR 0x22] @ ''b.css'' @ [CHR 0x22] @ '';'')
                       else if u = ''/w/b.css'' then Some (''@import '' @ [CHR 0x22] @ ''a.css'' @ [CHR 0x22] @ '';'')
                       else None),
      fileExists = (\<lambda>u. u = ''/w/a.css'' \<or> u = ''/w/b.css''),
      joinPath = (\<lambda>u seg. if seg = ''..'' then ''/w'' else u @ ''/'' @ seg),
      parseUri = (\<lambda>s. s),
      uriToString = (\<lambda>u. u)\<rparr>"

text \<open>
  The same two style sheets with the imports written relative to the importing file:
  \<open>/w/a.css\<close> holds \<open>@import "./b.css";\<close> and \<open>/w/b.css\<close> holds \<open>@import "./a.css";\<close>.
  Here \<open>joinPath\<close> also resolves the segment \<open>./\<close>.
\<close>

definition rel_cycle_host :: "string host" where
  "rel_cycle_host =
     \<lparr>readFile = (\<lambda>u. if u = ''/w/a.css'' then Some (''@import '' @ [CHR 0x22] @ ''./b.css'' @ [CHR 0x22] @ '';'')
                       else if u = ''/w/b.css'' then Some (''@import '' @ [CHR 0x22] @ ''./a.css'' @ [CHR 0x22] @ '';'')
                       else None),
      fileExists = (\<lambda>u. u = ''/w/a.css'' \<or> u = ''/w/b.css''),
      joinPath = (\<lambda>u seg. if seg = ''..'' then ''/w''
                          else if startsWith seg ''./'' then u @ ''/'' @ drop 2 seg
                          else u @ ''/'' @ seg),
      parseUri = (\<lambda>s. s),
      uriToString = (\<lambda>u. u)\<rparr>"

section \<open>Line index\<close>

text \<open>
  \<open>buildLineStartIndex\<close> pushes \<open>i + 1\<close> for every line feed (code 10) at \<open>i\<close>,
  after the initial 0.
\<close>

definition buildLineStartIndex :: "string \<Rightarrow> int list" where
  "buildLineStartIndex text =
     fold (\<lambda>i starts. if code (text ! i) = 10 then starts @ [int i + 1] else starts)
       [0..<length text] [0]"

text \<open>
  \<open>offsetToLine0\<close> is a binary search whose midpoint is \<open>(lo + hi) >> 1\<close>. The shift
  works on the 32-bit two's complement value of its operand. The loop is a partial
  function: \<open>None\<close> stands for a call that returns no value. An index outside the array
  reads \<open>undefined\<close>, and \<open>undefined <= offset\<close> is false.
  \<^verbatim>\<open>
  let lo = 0; let hi = lineStarts.length - 1; let ans = 0;
  while (lo <= hi) {
    const mid = (lo + hi) >> 1;
    if (lineStarts[mid] <= offset) { ans = mid; lo = mid + 1; } else { hi = mid - 1; }
  }
  return ans;
  \<close>
\<close>

definition toInt32 :: "int \<Rightarrow> int" where
  \<comment> \<open>the signed 32-bit value of an integer\<close>
  "toInt32 x = (x + 2 ^ 31) mod 2 ^ 32 - 2 ^ 31"

definition shiftRight1 :: "int \<Rightarrow> int" where
  \<comment> \<open>\<open>x >> 1\<close>\<close>
  "shiftRight1 x = toInt32 x div 2"

partial_function (option) offsetToLine0_loop :: "int list \<Rightarrow> int \<Rightarrow> int \<Rightarrow> int \<Rightarrow> int \<Rightarrow> int option" where
  "offsetToLine0_loop lineStarts offset lo hi ans =
     (if lo \<le> hi then
        (let mid = shiftRight1 (lo + hi) in
         if (case js_index lineStarts mid of None \<Rightarrow> False | Some v \<Rightarrow> v \<le> offset)
         then offsetToLine0_loop lineStarts offset (mid + 1) hi mid
         else offsetToLine0_loop lineStarts offset lo (mid - 1) ans)
      else Some ans)"

declare offsetToLine0_loop.simps [code]

definition offsetToLine0 :: "int list \<Rightarrow> int \<Rightarrow> int option" where
  "offsetToLine0 lineStarts offset =
     offsetToLine0_loop lineStarts offset 0 (int (length lineStarts) - 1) 0"

text \<open>
  \<^verbatim>\<open>
  const line0 = offsetToLine0(lineStarts, offset);
  const start = lineStarts[line0] ?? 0;
  return Math.max(0, offset - start);
  \<close>
\<close>

definition offsetToCol :: "int list \<Rightarrow> int \<Rightarrow> int option" where
  "offsetToCol lineStarts offset =
     (case offsetToLine0 lineStarts offset of
        None \<Rightarrow> None
      | Some line0 \<Rightarrow>
          (let start = (case js_index lineStarts line0 of None \<Rightarrow> 0 | Some v \<Rightarrow> v)
           in Some (max 0 (offset - start))))"

section \<open>Occurrences and entries\<close>

text \<open>The types of the occurrence-list variant.\<close>

record HitRange =
  r_line :: int
  r_startCol :: int
  r_endCol :: int

record UsageInfo =
  u_isDefinition :: bool
  u_scope :: "string option"
  u_property :: "string option"
  u_line :: int

datatype ColorOccur =
    VarOccur (o_name: string) (o_value: string) (o_file: string) (o_range: HitRange) (o_usage: UsageInfo)
  | LiteralOccur (o_value: string) (o_file: string) (o_range: HitRange) (o_usage: UsageInfo)

datatype occ_kind = KVar | KLiteral

definition o_kind :: "ColorOccur \<Rightarrow> occ_kind" where
  "o_kind occ = (case occ of VarOccur _ _ _ _ _ \<Rightarrow> KVar | LiteralOccur _ _ _ _ \<Rightarrow> KLiteral)"

record ColorEntry =
  e_key :: string
  e_kind :: occ_kind
  e_name :: "string option"
  e_value :: string
  e_occurrences :: "ColorOccur list"

subsection \<open>Keys\<close>

definition normalizeColorKey :: "string \<Rightarrow> string" where
  \<comment> \<open>\<open>value.trim().toLowerCase().replace(/\s+/g, "")\<close>\<close>
  "normalizeColorKey v = removeSpaces (toLowerCase (trim v))"

text \<open>
  \<^verbatim>\<open>
  const v = normalizeColorKey(o.value);
  if (o.kind === "var") { return `var:${o.name.toLowerCase()}=${v}`; }
  return `lit:${v}`;
  \<close>
\<close>

definition makeColorKey :: "ColorOccur \<Rightarrow> string" where
  "makeColorKey occ =
     (let v = normalizeColorKey (o_value occ) in
      case occ of
        VarOccur name _ _ _ _ \<Rightarrow> ''var:'' @ toLowerCase name @ ''='' @ v
      | LiteralOccur _ _ _ _ \<Rightarrow> ''lit:'' @ v)"

subsection \<open>Aggregation\<close>

text \<open>
  \<open>entriesByKey\<close> is a \<open>Map\<close> from key to entry; a \<open>Map\<close> keeps its keys in the order of
  their first insertion, so it is modelled as the list of its pairs in that order.
  \<^verbatim>\<open>
  for (const arr of occByFile.values()) {
    for (const o of arr) {
      const key = makeColorKey(o);
      const existing = entriesByKey.get(key);
      if (!existing) {
        entriesByKey.set(key, { key, kind: o.kind, name: o.kind === "var" ? o.name : undefined,
                                value: o.value, occurrences: [o] });
      } else {
        existing.occurrences.push(o);
      }
    }
  }
  \<close>
\<close>

definition addOccurrence :: "ColorOccur \<Rightarrow> (string \<times> ColorEntry) list \<Rightarrow> (string \<times> ColorEntry) list" where
  "addOccurrence occ entriesByKey =
     (let key = makeColorKey occ in
      case map_of entriesByKey key of
        None \<Rightarrow>
          entriesByKey @
            [(key, \<lparr>e_key = key, e_kind = o_kind occ,
                    e_name = (case occ of VarOccur name _ _ _ _ \<Rightarrow> Some name | LiteralOccur _ _ _ _ \<Rightarrow> None),
                    e_value = o_value occ, e_occurrences = [occ]\<rparr>)]
      | Some existing \<Rightarrow>
          map (\<lambda>(k, e). if k = key then (k, e\<lparr>e_occurrences := e_occurrences e @ [occ]\<rparr>) else (k, e))
            entriesByKey)"

definition aggregate :: "ColorOccur list list \<Rightarrow> (string \<times> ColorEntry) list" where
  \<comment> \<open>the argument lists the values of \<open>occByFile\<close>, one list of occurrences per file\<close>
  "aggregate occByFile = fold addOccurrence (concat occByFile) []"

definition allEntries :: "ColorOccur list list \<Rightarrow> ColorEntry list" where
  \<comment> \<open>\<open>Array.from(entriesByKey.values())\<close>\<close>
  "allEntries occByFile = map snd (aggregate occByFile)"

section \<open>Hits of the theme-classifying variant\<close>



record UsageHit =
  uh_file :: string
  uh_line :: int
  uh_scope :: string
  uh_property :: string
  uh_sample :: string






section \<open>Variable definitions\<close>

definition cssVarDefRegex :: rx where
  \<comment> \<open>\<open>/--([A-Za-z0-9_-]+)\s*:\s*([^;]+)\s*;/g\<close>\<close>
  "cssVarDefRegex =
     rx_lit ''--'' \<circ> rx_cap (rx_plus isNameChar) \<circ> rx_star isSpace \<circ> rx_lit '':''
     \<circ> rx_star isSpace \<circ> rx_cap (rx_plus (\<lambda>c. c \<noteq> CHR '';'')) \<circ> rx_star isSpace \<circ> rx_lit '';''"

definition hexToken :: rx where
  \<comment> \<open>\<open>#(?:[0-9a-fA-F]{3,4}|[0-9a-fA-F]{6}|[0-9a-fA-F]{8})\b\<close>\<close>
  "hexToken =
     rx_lit ''#''
     \<circ> rx_alt (rx_between 3 4 isHexDigit) (rx_alt (rx_exactly 6 isHexDigit) (rx_exactly 8 isHexDigit))
     \<circ> rx_wordb"

definition rgbAnyToken :: rx where
  \<comment> \<open>\<open>(?:rgba?|RGBA?)\([^)]*\)\<close>\<close>
  "rgbAnyToken =
     rx_alt (rx_lit ''rgb'' \<circ> rx_opt (rx_lit ''a'')) (rx_lit ''RGB'' \<circ> rx_opt (rx_lit ''A''))
     \<circ> rx_lit ''('' \<circ> rx_star (\<lambda>c. c \<noteq> CHR '')'') \<circ> rx_lit '')''"

definition hslAnyToken :: rx where
  \<comment> \<open>\<open>(?:hsla?|HSLA?)\([^)]*\)\<close>\<close>
  "hslAnyToken =
     rx_alt (rx_lit ''hsl'' \<circ> rx_opt (rx_lit ''a'')) (rx_lit ''HSL'' \<circ> rx_opt (rx_lit ''A''))
     \<circ> rx_lit ''('' \<circ> rx_star (\<lambda>c. c \<noteq> CHR '')'') \<circ> rx_lit '')''"

definition matchPrefix :: "rx \<Rightarrow> string \<Rightarrow> rx_match option" where
  \<comment> \<open>\<open>s.match(/^.../)\<close>: a pattern anchored at the start of the string\<close>
  "matchPrefix r s = rx_at r 0 None s"

text \<open>
  \<^verbatim>\<open>
  const s = rhs.trim();
  const hex = s.match(/^#(?:[0-9a-fA-F]{3,4}|[0-9a-fA-F]{6}|[0-9a-fA-F]{8})\b/);
  if (hex?.[0]) { return hex[0].trim(); }
  const rgb = s.match(/^(?:rgba?|RGBA?)\([^)]*\)/);
  if (rgb?.[0]) { return rgb[0].trim(); }
  const hsl = s.match(/^(?:hsla?|HSLA?)\([^)]*\)/);
  if (hsl?.[0]) { return hsl[0].trim(); }
  return "";
  \<close>
\<close>

definition extractFirstColorToken :: "string \<Rightarrow> string" where
  "extractFirstColorToken rhs =
     (let s = trim rhs in
      case matchPrefix hexToken s of
        Some hex \<Rightarrow> trim (m_text hex)
      | None \<Rightarrow>
          (case matchPrefix rgbAnyToken s of
             Some rgb \<Rightarrow> trim (m_text rgb)
           | None \<Rightarrow>
               (case matchPrefix hslAnyToken s of
                  Some hsl \<Rightarrow> trim (m_text hsl)
                | None \<Rightarrow> [])))"

record VarDef =
  d_name :: string
  d_value :: string

text \<open>
  \<^verbatim>\<open>
  for (const m of text.matchAll(cssVarDefRegex)) {
    const propName = `--${m[1]}`;
    const rhs = m[2].trim();
    const value = extractFirstColorToken(rhs);
    if (!value) { continue; }
    defs.push({ name: propName, value });
  }
  \<close>
\<close>

definition scanVarDefinitions :: "string \<Rightarrow> VarDef list" where
  "scanVarDefinitions text =
     concat (map (\<lambda>m. let propName = ''--'' @ rx_group m 1;
                           rhs = trim (rx_group m 2);
                           v = extractFirstColorToken rhs
                       in if v = [] then [] else [\<lparr>d_name = propName, d_value = v\<rparr>])
                 (matchAll cssVarDefRegex text))"

text \<open>
  Pass 1 of \<open>render\<close> builds the table \<open>globalVarValueByName\<close>, a \<open>Map\<close> from name to
  value, over the files \<open>collectImportGraph\<close> returned:
  \<^verbatim>\<open>
  for (const uri of uris) {
    let text = "";
    try { text = await readUriText(uri); } catch { continue; }
    ...
    const defs = scanVarDefinitions(text);
    for (const d of defs) {
      if (!globalVarValueByName.has(d.name)) { globalVarValueByName.set(d.name, d.value); }
    }
  }
  \<close>
\<close>

definition addVarDef :: "VarDef \<Rightarrow> (string \<rightharpoonup> string) \<Rightarrow> (string \<rightharpoonup> string)" where
  "addVarDef d globalVarValueByName =
     (if globalVarValueByName (d_name d) = None
      then globalVarValueByName(d_name d \<mapsto> d_value d)
      else globalVarValueByName)"

definition buildVarTable :: "'u host \<Rightarrow> 'u list \<Rightarrow> (string \<rightharpoonup> string)" where
  "buildVarTable h uris =
     fold (\<lambda>uri t. case readFile h uri of
                      None \<Rightarrow> t
                    | Some text \<Rightarrow> fold addVarDef (scanVarDefinitions text) t)
          uris Map.empty"

definition allVarDefs :: "'u host \<Rightarrow> 'u list \<Rightarrow> VarDef list" where
  \<comment> \<open>the definitions pass 1 finds, in the order it finds them: file by file in traversal
     order, and in each file in the order of the text\<close>
  "allVarDefs h uris =
     concat (map (\<lambda>uri. case readFile h uri of None \<Rightarrow> [] | Some text \<Rightarrow> scanVarDefinitions text) uris)"

text \<open>
  A workspace of two style sheets that both define \<open>--border\<close>.
\<close>

definition vars_host :: "string host" where
  "vars_host =
     \<lparr>readFile = (\<lambda>u. if u = ''/w/a.css'' then Some '':root { --border: #aabbcc; }''
                       else if u = ''/w/b.css'' then Some '':root { --border: #000; --bg: rgb(0, 0, 0); }''
                       else None),
      fileExists = (\<lambda>u. u = ''/w/a.css'' \<or> u = ''/w/b.css''),
      joinPath = (\<lambda>u seg. if seg = ''..'' then ''/w'' else u @ ''/'' @ seg),
      parseUri = (\<lambda>s. s),
      uriToString = (\<lambda>u. u)\<rparr>"

section \<open>Occurrence scanner\<close>

subsection \<open>Token patterns\<close>

definition hexRegex :: rx where
  \<comment> \<open>\<open>/#(?:[0-9a-fA-F]{3,4}|[0-9a-fA-F]{6}|[0-9a-fA-F]{8})\b/g\<close>\<close>
  "hexRegex = hexToken"

definition alphaValue :: rx where
  \<comment> \<open>\<open>(?:0?\.\d+|1|0|\.\d+)\<close>\<close>
  "alphaValue =
     rx_alt (rx_opt (rx_lit ''0'') \<circ> rx_lit ''.'' \<circ> rx_plus isDigit)
       (rx_alt (rx_lit ''1'') (rx_alt (rx_lit ''0'') (rx_lit ''.'' \<circ> rx_plus isDigit)))"

definition rgbRegex :: rx where
  \<comment> \<open>\<open>/\brgba?\(\s*\d{1,3}\s*,\s*\d{1,3}\s*,\s*\d{1,3}(?:\s*,\s*(?:0?\.\d+|1|0|\.\d+))?\s*\)/gi\<close>\<close>
  "rgbRegex =
     rx_wordb \<circ> rx_lit_ci ''rgb'' \<circ> rx_opt (rx_lit_ci ''a'') \<circ> rx_lit ''('' \<circ> rx_star isSpace
     \<circ> rx_between 1 3 isDigit \<circ> rx_star isSpace \<circ> rx_lit '','' \<circ> rx_star isSpace
     \<circ> rx_between 1 3 isDigit \<circ> rx_star isSpace \<circ> rx_lit '','' \<circ> rx_star isSpace
     \<circ> rx_between 1 3 isDigit
     \<circ> rx_opt (rx_star isSpace \<circ> rx_lit '','' \<circ> rx_star isSpace \<circ> alphaValue)
     \<circ> rx_star isSpace \<circ> rx_lit '')''"

definition hslRegex :: rx where
  \<comment> \<open>\<open>/\bhsla?\(\s*\d{1,3}(?:deg)?\s*,\s*\d{1,3}%\s*,\s*\d{1,3}%\s*(?:,\s*(?:0?\.\d+|1|0|\.\d+))?\s*\)/gi\<close>\<close>
  "hslRegex =
     rx_wordb \<circ> rx_lit_ci ''hsl'' \<circ> rx_opt (rx_lit_ci ''a'') \<circ> rx_lit ''('' \<circ> rx_star isSpace
     \<circ> rx_between 1 3 isDigit \<circ> rx_opt (rx_lit_ci ''deg'') \<circ> rx_star isSpace \<circ> rx_lit '','' \<circ> rx_star isSpace
     \<circ> rx_between 1 3 isDigit \<circ> rx_lit ''%'' \<circ> rx_star isSpace \<circ> rx_lit '','' \<circ> rx_star isSpace
     \<circ> rx_between 1 3 isDigit \<circ> rx_lit ''%'' \<circ> rx_star isSpace
     \<circ> rx_opt (rx_lit '','' \<circ> rx_star isSpace \<circ> alphaValue)
     \<circ> rx_star isSpace \<circ> rx_lit '')''"

definition cssVarRefRegex :: rx where
  \<comment> \<open>\<open>/var\(\s*(--[A-Za-z0-9_-]+)\s*(?:,\s*[^)]*)?\)/g\<close>\<close>
  "cssVarRefRegex =
     rx_lit ''var('' \<circ> rx_star isSpace \<circ> rx_cap (rx_lit ''--'' \<circ> rx_plus isNameChar) \<circ> rx_star isSpace
     \<circ> rx_opt (rx_lit '','' \<circ> rx_star isSpace \<circ> rx_star (\<lambda>c. c \<noteq> CHR '')''))
     \<circ> rx_lit '')''"

subsection \<open>Position and context of a match\<close>

definition isCssFile :: "string \<Rightarrow> bool" where
  \<comment> \<open>\<open>/\.(css|scss|sass|less)$/i.test(file)\<close>\<close>
  "isCssFile file =
     (match1 (rx_lit ''.''
              \<circ> rx_alt (rx_lit_ci ''css'') (rx_alt (rx_lit_ci ''scss'')
                  (rx_alt (rx_lit_ci ''sass'') (rx_lit_ci ''less'')))
              \<circ> rx_eol) file \<noteq> None)"

definition slice :: "string \<Rightarrow> int \<Rightarrow> int \<Rightarrow> string" where
  \<comment> \<open>\<open>s.slice(start, end)\<close>: a negative index counts from the end, and both are clamped\<close>
  "slice s start end' =
     (let len = int (length s);
          from = (if start < 0 then max (len + start) 0 else min start len);
          to = (if end' < 0 then max (len + end') 0 else min end' len)
      in take (nat (to - from)) (drop (nat from) s))"

text \<open>
  \<^verbatim>\<open>
  const start = lineStarts[line0] ?? 0;
  const end = line0 + 1 < lineStarts.length ? (lineStarts[line0 + 1] ?? text.length) : text.length;
  return text.slice(start, end).replace(/\r?\n$/, "");
  \<close>
\<close>

definition getLineText :: "string \<Rightarrow> int list \<Rightarrow> int \<Rightarrow> string" where
  "getLineText text lineStarts line0 =
     (let start = (case js_index lineStarts line0 of None \<Rightarrow> 0 | Some v \<Rightarrow> v);
          end' = (if line0 + 1 < int (length lineStarts)
                  then (case js_index lineStarts (line0 + 1) of None \<Rightarrow> int (length text) | Some v \<Rightarrow> v)
                  else int (length text));
          s = slice text start end'
      in if endsWith s [CHR 0x0D, CHR 0x0A] then take (length s - 2) s
         else if endsWith s [CHR 0x0A] then take (length s - 1) s
         else s)"

text \<open>
  The context extraction (\<open>findCssContext\<close>, \<open>findJsxScopeAround\<close> and
  \<open>findJsPropertyKeyBeforeCol\<close>) fills the scope and the property of an occurrence. These
  heuristics are parameters of the scanner here.
\<close>

record context_extractors =
  findCssContext :: "string \<Rightarrow> int list \<Rightarrow> int \<Rightarrow> string option \<times> string option"
  findJsxScopeAround :: "string \<Rightarrow> int list \<Rightarrow> int \<Rightarrow> string option"
  findJsPropertyKeyBeforeCol :: "string \<Rightarrow> int \<Rightarrow> string option"

text \<open>
  Every pass of the scanner computes the range and the usage of its match with the same
  statements:
  \<^verbatim>\<open>
  const line0 = offsetToLine0(lineStarts, startOffset);
  const line = line0 + 1;
  const snippet = getLineText(text, lineStarts, line0);
  const col = offsetToCol(lineStarts, startOffset);
  let scope; let property;
  if (isCssFile(file)) {
    const cssCtx = findCssContext(text, lineStarts, startOffset);
    scope = cssCtx.scope; property = cssCtx.property;
  } else {
    scope = findJsxScopeAround(text, lineStarts, line0);
    property = findJsPropertyKeyBeforeCol(snippet, col);
  }
  ... range: { line, startCol: col, endCol: offsetToCol(lineStarts, endOffset) },
      usage: { isDefinition, scope, property, line }
  \<close>
\<close>

definition locate ::
  "context_extractors \<Rightarrow> string \<Rightarrow> int list \<Rightarrow> string \<Rightarrow> int \<Rightarrow> int \<Rightarrow> bool
     \<Rightarrow> (HitRange \<times> UsageInfo) option" where
  "locate cx text lineStarts file startOffset endOffset isDefinition =
     do {
       line0 \<leftarrow> offsetToLine0 lineStarts startOffset;
       col \<leftarrow> offsetToCol lineStarts startOffset;
       endCol \<leftarrow> offsetToCol lineStarts endOffset;
       let line = line0 + 1;
           snippet = getLineText text lineStarts line0;
           ctx = (if isCssFile file then findCssContext cx text lineStarts startOffset
                  else (findJsxScopeAround cx text lineStarts line0,
                        findJsPropertyKeyBeforeCol cx snippet col))
       in Some (\<lparr>r_line = line, r_startCol = col, r_endCol = endCol\<rparr>,
                \<lparr>u_isDefinition = isDefinition, u_scope = fst ctx, u_property = snd ctx,
                   u_line = line\<rparr>)
     }"

subsection \<open>The passes\<close>

record span =
  s_start :: int
  s_end :: int

text \<open>
  Pass 1, the variable definitions. It returns its occurrences and the exclusion spans it
  pushed.
  \<^verbatim>\<open>
  for (const m of text.matchAll(cssVarDefRegex)) {
    const matchStart = m.index ?? 0;
    const whole = m[0];
    const propName = `--${m[1]}`;
    const rhs = m[2].trim();
    const value = extractFirstColorToken(rhs);
    if (!value) { continue; }
    const inner = whole.indexOf(value);
    if (inner < 0) { continue; }
    const startOffset = matchStart + inner;
    const endOffset = startOffset + value.length;
    excludeSpans.push({ start: startOffset, end: endOffset });
    ...
    occ.push({ kind: "var", name: propName, value, file, range, usage: { isDefinition: true, ... } });
  }
  \<close>
\<close>

fun defPass ::
  "context_extractors \<Rightarrow> string \<Rightarrow> int list \<Rightarrow> string \<Rightarrow> rx_match list
     \<Rightarrow> (ColorOccur list \<times> span list) option" where
  "defPass cx text lineStarts file [] = Some ([], [])"
| "defPass cx text lineStarts file (m # ms) =
     (let matchStart = int (m_index m);
          whole = m_text m;
          propName = ''--'' @ rx_group m 1;
          rhs = trim (rx_group m 2);
          v = extractFirstColorToken rhs
      in if v = [] then defPass cx text lineStarts file ms
         else
           (let inner = indexOf whole v
            in if inner < 0 then defPass cx text lineStarts file ms
               else
                 (let startOffset = matchStart + inner;
                      endOffset = startOffset + int (length v)
                  in do {
                       (rng, usage) \<leftarrow> locate cx text lineStarts file startOffset endOffset True;
                       (occs, spans) \<leftarrow> defPass cx text lineStarts file ms;
                       Some (VarOccur propName v file rng usage # occs,
                             \<lparr>s_start = startOffset, s_end = endOffset\<rparr> # spans)
                     })))"

text \<open>
  \<open>isExcluded\<close> searches the sorted spans for the last one that starts at or before
  \<open>start\<close>, and tests the overlap with that one. Reading \<open>.start\<close> of an index outside
  the array throws; the call then returns no value.
  \<^verbatim>\<open>
  let lo = 0; let hi = excludeSpans.length - 1; let idx = -1;
  while (lo <= hi) {
    const mid = (lo + hi) >> 1;
    if (excludeSpans[mid].start <= start) { idx = mid; lo = mid + 1; } else { hi = mid - 1; }
  }
  if (idx < 0) { return false; }
  const s = excludeSpans[idx];
  return start < s.end && end > s.start;
  \<close>
\<close>

partial_function (option) isExcluded_loop :: "span list \<Rightarrow> int \<Rightarrow> int \<Rightarrow> int \<Rightarrow> int \<Rightarrow> int option" where
  "isExcluded_loop excludeSpans start lo hi idx =
     (if lo \<le> hi then
        (let mid = shiftRight1 (lo + hi) in
         case js_index excludeSpans mid of
           None \<Rightarrow> None
         | Some s \<Rightarrow>
             if s_start s \<le> start
             then isExcluded_loop excludeSpans start (mid + 1) hi mid
             else isExcluded_loop excludeSpans start lo (mid - 1) idx)
      else Some idx)"

declare isExcluded_loop.simps [code]

definition isExcluded :: "span list \<Rightarrow> int \<Rightarrow> int \<Rightarrow> bool option" where
  "isExcluded excludeSpans start end' =
     (case isExcluded_loop excludeSpans start 0 (int (length excludeSpans) - 1) (- 1) of
        None \<Rightarrow> None
      | Some idx \<Rightarrow>
          if idx < 0 then Some False
          else (case js_index excludeSpans idx of
                  None \<Rightarrow> None
                | Some s \<Rightarrow> Some (start < s_end s \<and> end' > s_start s)))"

text \<open>
  Pass 2, the variable references.
  \<^verbatim>\<open>
  for (const m of text.matchAll(cssVarRefRegex)) {
    const startOffset = m.index ?? 0;
    const matchText = m[0];
    const name = m[1];
    const endOffset = startOffset + matchText.length;
    const resolved = globalVarValueByName.get(name);
    if (!resolved) { continue; }
    ...
    occ.push({ kind: "var", name, value: resolved, file, range, usage: { isDefinition: false, ... } });
  }
  \<close>
  \<open>!resolved\<close> holds for a name without entry and for the empty string.
\<close>

fun refPass ::
  "context_extractors \<Rightarrow> string \<Rightarrow> int list \<Rightarrow> string \<Rightarrow> (string \<rightharpoonup> string) \<Rightarrow> rx_match list
     \<Rightarrow> ColorOccur list option" where
  "refPass cx text lineStarts file globalVarValueByName [] = Some []"
| "refPass cx text lineStarts file globalVarValueByName (m # ms) =
     (let startOffset = int (m_index m);
          matchText = m_text m;
          name = rx_group m 1;
          endOffset = startOffset + int (length matchText)
      in case globalVarValueByName name of
           None \<Rightarrow> refPass cx text lineStarts file globalVarValueByName ms
         | Some resolved \<Rightarrow>
             if resolved = [] then refPass cx text lineStarts file globalVarValueByName ms
             else do {
               (rng, usage) \<leftarrow> locate cx text lineStarts file startOffset endOffset False;
               occs \<leftarrow> refPass cx text lineStarts file globalVarValueByName ms;
               Some (VarOccur name resolved file rng usage # occs)
             })"

text \<open>
  Passes 3 to 5, the literals: the same loop over the matches of \<open>hexRegex\<close>, of
  \<open>rgbRegex\<close> and of \<open>hslRegex\<close>.
  \<^verbatim>\<open>
  for (const m of text.matchAll(hexRegex)) {
    const startOffset = m.index ?? 0;
    const value = m[0];
    const endOffset = startOffset + value.length;
    if (isExcluded(startOffset, endOffset)) { continue; }
    ...
    occ.push({ kind: "literal", value, file, range, usage: { isDefinition: false, ... } });
  }
  \<close>
\<close>

fun litPass ::
  "context_extractors \<Rightarrow> string \<Rightarrow> int list \<Rightarrow> string \<Rightarrow> span list \<Rightarrow> rx_match list
     \<Rightarrow> ColorOccur list option" where
  "litPass cx text lineStarts file excludeSpans [] = Some []"
| "litPass cx text lineStarts file excludeSpans (m # ms) =
     (let startOffset = int (m_index m);
          v = m_text m;
          endOffset = startOffset + int (length v)
      in do {
           excluded \<leftarrow> isExcluded excludeSpans startOffset endOffset;
           if excluded then litPass cx text lineStarts file excludeSpans ms
           else do {
             (rng, usage) \<leftarrow> locate cx text lineStarts file startOffset endOffset False;
             occs \<leftarrow> litPass cx text lineStarts file excludeSpans ms;
             Some (LiteralOccur v file rng usage # occs)
           }
         })"

definition scanTextForColorOccurrences ::
  "context_extractors \<Rightarrow> string \<Rightarrow> int list \<Rightarrow> string \<Rightarrow> (string \<rightharpoonup> string)
     \<Rightarrow> ColorOccur list option" where
  "scanTextForColorOccurrences cx text lineStarts file globalVarValueByName =
     do {
       (defOccs, spans) \<leftarrow> defPass cx text lineStarts file (matchAll cssVarDefRegex text);
       let excludeSpans = sort_key s_start spans;
       refOccs \<leftarrow> refPass cx text lineStarts file globalVarValueByName (matchAll cssVarRefRegex text);
       hexOccs \<leftarrow> litPass cx text lineStarts file excludeSpans (matchAll hexRegex text);
       rgbOccs \<leftarrow> litPass cx text lineStarts file excludeSpans (matchAll rgbRegex text);
       hslOccs \<leftarrow> litPass cx text lineStarts file excludeSpans (matchAll hslRegex text);
       Some (defOccs @ refOccs @ hexOccs @ rgbOccs @ hslOccs)
     }"

definition isReference :: "ColorOccur \<Rightarrow> bool" where
  \<comment> \<open>an occurrence of pass 2: a variable that is used, not defined\<close>
  "isReference occ =
     (case occ of VarOccur _ _ _ _ usage \<Rightarrow> \<not> u_isDefinition usage | LiteralOccur _ _ _ _ \<Rightarrow> False)"

definition isLiteral :: "ColorOccur \<Rightarrow> bool" where
  "isLiteral occ = (o_kind occ = KLiteral)"

definition resolves :: "(string \<rightharpoonup> string) \<Rightarrow> string \<Rightarrow> bool" where
  \<comment> \<open>the table has a value for the name, and \<open>!resolved\<close> is false for it\<close>
  "resolves globalVarValueByName name =
     (case globalVarValueByName name of None \<Rightarrow> False | Some v \<Rightarrow> v \<noteq> [])"

definition span_text :: "string \<Rightarrow> span \<Rightarrow> string" where
  \<comment> \<open>the text a span covers\<close>
  "span_text text sp = take (nat (s_end sp - s_start sp)) (drop (nat (s_start sp)) text)"

definition match_in_span :: "rx_match \<Rightarrow> span \<Rightarrow> bool" where
  \<comment> \<open>the source range of the match lies within the span\<close>
  "match_in_span m sp =
     (s_start sp \<le> int (m_index m) \<and> int (m_index m) + int (length (m_text m)) \<le> s_end sp)"

definition match_excluded :: "span list \<Rightarrow> rx_match \<Rightarrow> bool option" where
  \<comment> \<open>\<open>isExcluded(startOffset, endOffset)\<close> for a literal match\<close>
  "match_excluded excludeSpans m =
     isExcluded excludeSpans (int (m_index m)) (int (m_index m) + int (length (m_text m)))"

definition no_context :: context_extractors where
  \<comment> \<open>extractors that find nothing, for the examples\<close>
  "no_context =
     \<lparr>findCssContext = (\<lambda>text lineStarts offset. (None, None)),
      findJsxScopeAround = (\<lambda>text lineStarts line0. None),
      findJsPropertyKeyBeforeCol = (\<lambda>lineText col. None)\<rparr>"

definition sample_sheet :: string where
  \<comment> \<open>a style sheet for the examples\<close>
  "sample_sheet =
     '':root { --border: #aabbcc; }\<newline>.pair-card { border: 1px solid var(--border); color: var(--undefined-token); background: #FFF; }''"

section \<open>Theme classifier\<close>





















subsection \<open>Variable definitions of the theme-classifying variant\<close>








section \<open>Properties\<close>

lemma startsWith_prefix: "startsWith s p \<longleftrightarrow> prefix p s"
  by (auto simp: startsWith_def prefix_def take_eq_Nil
      intro: exI [of _ "drop (length p) s"])
     (metis append_take_drop_id)

text \<open>
  Claim C7, as amended. The two variants of \<open>isFollowable\<close> agree on the explicit
  prefixes: a specifier starting \<open>./\<close>, \<open>../\<close>, \<open>/\<close>, \<open>@/\<close> or \<open>~/\<close> is accepted
  for both kinds of import. They differ on the other style-sheet specifiers. The
  theme-classifying variant accepts exactly those that start neither with the characters
  \<open>http\<close> nor with \<open>data:\<close>, so there a style-sheet import of an \<open>http://\<close>,
  \<open>https://\<close> or \<open>data:\<close> URL is never accepted. The occurrence-list variant accepts
  exactly those that start with none of \<open>.\<close>, \<open>@\<close> and \<open>~\<close>. A script import with
  none of the explicit prefixes is accepted by neither.
\<close>

theorem isFollowable_accepts:
  "(isFollowable_theme spec kind \<longleftrightarrow>
      prefix ''./'' spec \<or> prefix ''../'' spec \<or> prefix ''/'' spec
      \<or> prefix ''@/'' spec \<or> prefix ''~/'' spec
      \<or> (kind = Css \<and> \<not> prefix ''http'' spec \<and> \<not> prefix ''data:'' spec))
   \<and> (isFollowable spec kind \<longleftrightarrow>
      prefix ''./'' spec \<or> prefix ''../'' spec \<or> prefix ''/'' spec
      \<or> prefix ''@/'' spec \<or> prefix ''~/'' spec
      \<or> (kind = Css \<and> \<not> prefix ''.'' spec \<and> \<not> prefix ''@'' spec \<and> \<not> prefix ''~'' spec))
   \<and> \<not> isFollowable_theme (''http://'' @ rest) Css
   \<and> \<not> isFollowable_theme (''https://'' @ rest) Css
   \<and> \<not> isFollowable_theme (''data:'' @ rest) Css"
  by (simp add: isFollowable_def isFollowable_theme_def startsWith_prefix)

theorem isFollowable_accepts_witness:
  "isFollowable_theme ''theme/base.css'' Css
   \<and> isFollowable ''theme/base.css'' Css
   \<and> \<not> isFollowable_theme ''react'' Js
   \<and> \<not> isFollowable ''react'' Js
   \<and> \<not> isFollowable_theme ''https://cdn.example.com/a.css'' Css"
  using isFollowable_accepts [of "''theme/base.css''" Css "''cdn.example.com/a.css''"]
    isFollowable_accepts [of "''react''" Js "[]"]
  by simp

text \<open>
  The occurrence-list variant accepts a style-sheet import of an HTTP URL, and rejects a
  style-sheet specifier that is no URL but starts with a dot.
\<close>

theorem isFollowable_http_counterexample:
  "isFollowable ''http://example.com/theme.css'' Css \<and> \<not> isFollowable ''.theme.css'' Css"
  by (simp add: isFollowable_def startsWith_def)

subsection \<open>Line index\<close>

lemma shiftRight1_small: "0 \<le> x \<Longrightarrow> x < 2 ^ 31 \<Longrightarrow> shiftRight1 x = x div 2"
  by (simp add: shiftRight1_def toInt32_def)

lemma fold_starts:
  "fold (\<lambda>i starts. if code (text ! i) = 10 then starts @ [int i + 1] else starts) [a..<b] acc
     = acc @ map (\<lambda>i. int i + 1) (filter (\<lambda>i. code (text ! i) = 10) [a..<b])"
  by (induction b) auto

lemma buildLineStartIndex_eq:
  "buildLineStartIndex text = 0 # map (\<lambda>i. int i + 1) (filter (\<lambda>i. code (text ! i) = 10) [0..<length text])"
  by (simp add: buildLineStartIndex_def fold_starts)

lemma filter_nth_enumerate:
  "filter (\<lambda>i. P (xs ! i)) [0..<length xs] = map fst (filter (\<lambda>p. P (snd p)) (enumerate 0 xs))"
proof -
  have "enumerate 0 xs = map (\<lambda>i. (i, xs ! i)) [0..<length xs]"
    by (intro nth_equalityI) (simp_all add: nth_enumerate_eq)
  then show ?thesis by (simp add: filter_map comp_def)
qed

lemma buildLineStartIndex_enumerate:
  "buildLineStartIndex text
     = 0 # map (\<lambda>p. int (fst p) + 1) (filter (\<lambda>p. code (snd p) = 10) (enumerate 0 text))"
  unfolding buildLineStartIndex_eq filter_nth_enumerate [of "\<lambda>c. code c = 10" "text"]
  by (simp add: comp_def)

declare buildLineStartIndex_enumerate [code]

lemma sorted_buildLineStartIndex: "sorted (buildLineStartIndex text)"
proof -
  have "sorted (map (\<lambda>i. int i + 1) (filter (\<lambda>i. code (text ! i) = 10) [0..<length text]))"
    by (rule sorted_map [THEN iffD2]) (auto intro!: sorted_wrt_filter sorted_wrt_mono_rel [OF _ sorted_upt])
  then show ?thesis
    by (auto simp: buildLineStartIndex_eq)
qed

lemma length_buildLineStartIndex: "length (buildLineStartIndex text) \<le> Suc (length text)"
  by (simp add: buildLineStartIndex_eq le_trans [OF length_filter_le])

lemma offsetToLine0_loop_spec:
  assumes "sorted ls" and "length ls \<le> 2 ^ 30"
    and "0 \<le> lo" and "lo \<le> hi + 1" and "hi < int (length ls)"
    and "\<forall>j. j < nat lo \<longrightarrow> ls ! j \<le> n"
    and "\<forall>j. hi < int j \<and> j < length ls \<longrightarrow> n < ls ! j"
    and "0 < lo \<longrightarrow> ans = lo - 1"
  shows "\<exists>r. offsetToLine0_loop ls n lo hi ans = Some r
            \<and> (if \<exists>j < length ls. ls ! j \<le> n
                then 0 \<le> r \<and> r < int (length ls) \<and> ls ! nat r \<le> n
                     \<and> (\<forall>j < length ls. ls ! j \<le> n \<longrightarrow> int j \<le> r)
                else r = ans)"
  using assms
proof (induction "nat (hi - lo + 1)" arbitrary: lo hi ans rule: less_induct)
  case less
  show ?case
  proof (cases "lo \<le> hi")
    case False
    with less.prems have eq: "lo = hi + 1" by simp
    have res: "offsetToLine0_loop ls n lo hi ans = Some ans"
      using False by (subst offsetToLine0_loop.simps) simp
    show ?thesis
    proof (cases "\<exists>j < length ls. ls ! j \<le> n")
      case True
      then obtain j where j: "j < length ls" "ls ! j \<le> n" by blast
      with less.prems(7) have "int j \<le> hi" by force
      with eq have pos: "0 < lo" by simp
      with less.prems have ans: "ans = lo - 1" by simp
      have "ls ! nat ans \<le> n" using less.prems(6) pos ans by simp
      moreover have "\<forall>j < length ls. ls ! j \<le> n \<longrightarrow> int j \<le> ans"
        using less.prems(7) ans eq by force
      ultimately show ?thesis using True res ans pos less.prems(5) eq by auto
    next
      case False
      with res show ?thesis by auto
    qed
  next
    case True
    define mid where "mid = (lo + hi) div 2"
    have sum: "0 \<le> lo + hi" "lo + hi < 2 ^ 31"
      using True less.prems(2,3,5) by auto
    have mid: "shiftRight1 (lo + hi) = mid"
      using sum by (simp add: shiftRight1_small mid_def)
    have bounds: "lo \<le> mid" "mid \<le> hi" using True by (auto simp: mid_def)
    then have idx: "js_index ls mid = Some (ls ! nat mid)"
      using less.prems(3,5) by (simp add: js_index_def)
    show ?thesis
    proof (cases "ls ! nat mid \<le> n")
      case le: True
      have step: "offsetToLine0_loop ls n lo hi ans = offsetToLine0_loop ls n (mid + 1) hi mid"
        using True le by (subst offsetToLine0_loop.simps) (simp add: mid idx)
      have "\<forall>j. j < nat (mid + 1) \<longrightarrow> ls ! j \<le> n"
      proof (intro allI impI)
        fix j assume "j < nat (mid + 1)"
        then have "j \<le> nat mid" using bounds less.prems(3) by simp
        moreover have "nat mid < length ls" using bounds less.prems(3,5) by simp
        ultimately have "ls ! j \<le> ls ! nat mid"
          using \<open>sorted ls\<close> by (simp add: sorted_iff_nth_mono)
        with le show "ls ! j \<le> n" by simp
      qed
      then have "\<exists>r. offsetToLine0_loop ls n (mid + 1) hi mid = Some r
            \<and> (if \<exists>j < length ls. ls ! j \<le> n
                then 0 \<le> r \<and> r < int (length ls) \<and> ls ! nat r \<le> n
                     \<and> (\<forall>j < length ls. ls ! j \<le> n \<longrightarrow> int j \<le> r)
                else r = mid)"
        using less.prems bounds by (intro less.hyps) auto
      moreover have "\<exists>j < length ls. ls ! j \<le> n"
        using le bounds less.prems(3,5) by (intro exI [of _ "nat mid"]) simp
      ultimately show ?thesis using step by auto
    next
      case gt: False
      have step: "offsetToLine0_loop ls n lo hi ans = offsetToLine0_loop ls n lo (mid - 1) ans"
        using True gt by (subst offsetToLine0_loop.simps) (simp add: mid idx)
      have "\<forall>j. mid - 1 < int j \<and> j < length ls \<longrightarrow> n < ls ! j"
      proof (intro allI impI)
        fix j assume j: "mid - 1 < int j \<and> j < length ls"
        then have "nat mid \<le> j" by linarith
        with j have "ls ! nat mid \<le> ls ! j"
          using \<open>sorted ls\<close> by (simp add: sorted_iff_nth_mono)
        with gt show "n < ls ! j" by simp
      qed
      then have "\<exists>r. offsetToLine0_loop ls n lo (mid - 1) ans = Some r
            \<and> (if \<exists>j < length ls. ls ! j \<le> n
                then 0 \<le> r \<and> r < int (length ls) \<and> ls ! nat r \<le> n
                     \<and> (\<forall>j < length ls. ls ! j \<le> n \<longrightarrow> int j \<le> r)
                else r = ans)"
        using less.prems bounds by (intro less.hyps) auto
      then show ?thesis using step by simp
    qed
  qed
qed

text \<open>
  Claim C9. For every text (of fewer than \<open>2 ^ 30\<close> code units, which every string of
  the engine is) and every offset \<open>n\<close> with \<open>0 \<le> n \<le> length text\<close>, \<open>offsetToLine0\<close>
  over the line-start index built from the text returns a value, and the value is the
  greatest index \<open>i\<close> with \<open>lineStarts[i] \<le> n\<close>; \<open>offsetToCol\<close> returns \<open>n\<close>
  minus that line's start.
\<close>

theorem offsetToLine0_greatest:
  assumes "length text < 2 ^ 30" and "0 \<le> n" and "n \<le> int (length text)"
  shows "\<exists>i. offsetToLine0 (buildLineStartIndex text) n = Some (int i)
           \<and> i < length (buildLineStartIndex text)
           \<and> buildLineStartIndex text ! i \<le> n
           \<and> (\<forall>j < length (buildLineStartIndex text). buildLineStartIndex text ! j \<le> n \<longrightarrow> j \<le> i)
           \<and> offsetToCol (buildLineStartIndex text) n = Some (n - buildLineStartIndex text ! i)"
proof -
  define ls where "ls = buildLineStartIndex text"
  have len: "length ls \<le> 2 ^ 30" "0 < length ls"
    using assms(1) length_buildLineStartIndex [of "text"] by (auto simp: ls_def buildLineStartIndex_eq)
  have first: "ls ! 0 \<le> n" using assms(2) by (simp add: ls_def buildLineStartIndex_eq)
  have ex: "\<exists>j < length ls. ls ! j \<le> n" using len first by blast
  have "\<exists>r. offsetToLine0_loop ls n 0 (int (length ls) - 1) 0 = Some r
            \<and> (if \<exists>j < length ls. ls ! j \<le> n
                then 0 \<le> r \<and> r < int (length ls) \<and> ls ! nat r \<le> n
                     \<and> (\<forall>j < length ls. ls ! j \<le> n \<longrightarrow> int j \<le> r)
                else r = 0)"
    using len by (intro offsetToLine0_loop_spec) (auto simp: ls_def sorted_buildLineStartIndex)
  with ex obtain r where r: "offsetToLine0 ls n = Some r" "0 \<le> r" "r < int (length ls)"
    "ls ! nat r \<le> n" "\<forall>j < length ls. ls ! j \<le> n \<longrightarrow> int j \<le> r"
    by (auto simp: offsetToLine0_def)
  have col: "offsetToCol ls n = Some (n - ls ! nat r)"
    using r by (simp add: offsetToCol_def js_index_def)
  show ?thesis
    unfolding ls_def [symmetric]
    using r col by (intro exI [of _ "nat r"]) auto
qed

theorem offsetToLine0_greatest_witness:
  "length ''ab\<newline>cd\<newline>\<newline>e'' < 2 ^ 30
   \<and> (0::int) \<le> 4 \<and> (4::int) \<le> int (length ''ab\<newline>cd\<newline>\<newline>e'')
   \<and> buildLineStartIndex ''ab\<newline>cd\<newline>\<newline>e'' = [0, 3, 6, 7]
   \<and> offsetToLine0 (buildLineStartIndex ''ab\<newline>cd\<newline>\<newline>e'') 4 = Some 1
   \<and> offsetToCol (buildLineStartIndex ''ab\<newline>cd\<newline>\<newline>e'') 4 = Some 1"
proof -
  have ls: "buildLineStartIndex ''ab\<newline>cd\<newline>\<newline>e'' = [0, 3, 6, 7]"
    by (simp add: buildLineStartIndex_def code_def upt_rec)
  have h: "length ''ab\<newline>cd\<newline>\<newline>e'' < 2 ^ 30" "(0::int) \<le> 4"
    "(4::int) \<le> int (length ''ab\<newline>cd\<newline>\<newline>e'')"
    by simp_all
  from offsetToLine0_greatest [OF h] obtain i where
    i: "offsetToLine0 [0, 3, 6, 7] 4 = Some (int i)" "i < 4" "[0, 3, 6, 7] ! i \<le> (4::int)"
      "\<forall>j<4. [0, 3, 6, 7] ! j \<le> (4::int) \<longrightarrow> j \<le> i"
      "offsetToCol [0, 3, 6, 7] 4 = Some (4 - [0, 3, 6, 7] ! i)"
    unfolding ls by auto
  from i(4) have "1 \<le> i" by (auto dest: spec [of _ 1])
  moreover from i(2,3) have "i \<le> 1"
    by (cases "i = 2"; cases "i = 3") (auto simp: less_Suc_eq numeral_eq_Suc)
  ultimately have "i = 1" by simp
  with i(1,5) h ls show ?thesis by simp
qed

subsection \<open>Import graph\<close>

lemma readsOf_append: "readsOf (xs @ ys) = readsOf xs @ readsOf ys"
  by (induction xs rule: readsOf.induct) auto

lemma enqueueImports_append:
  "enqueueImports follow h wsRoot uri imps q = q @ enqueueImports follow h wsRoot uri imps []"
proof (induction imps arbitrary: q rule: rev_induct)
  case Nil
  show ?case by (simp add: enqueueImports_def)
next
  case (snoc imp imps)
  show ?case
    using snoc [of q]
    by (simp add: enqueueImports_def split: option.splits)
qed

lemma graph_step_skip:
  assumes "queue s = uri # rest" and "int (length (out s)) < maxFiles"
    and "uriToString h uri \<in> visited s"
  shows "graph_step follow h wsRoot maxFiles s
           = Some (s\<lparr>queue := rest, events := events s @ [Dequeued uri]\<rparr>)"
  using assms by (simp add: graph_step_def)

lemma graph_step_visit:
  assumes "queue s = uri # rest" and "int (length (out s)) < maxFiles"
    and "uriToString h uri \<notin> visited s"
  shows "graph_step follow h wsRoot maxFiles s
           = Some (s\<lparr>queue := rest @ importsOf follow h wsRoot uri,
                      visited := insert (uriToString h uri) (visited s),
                      out := out s @ [uri],
                      events := events s @ [Dequeued uri, ReadText uri]\<rparr>)"
  using assms enqueueImports_append [of follow h wsRoot uri _ rest]
  by (simp add: graph_step_def importsOf_def split: option.splits)

lemma graph_step_cases:
  assumes "graph_step follow h wsRoot maxFiles s = Some s'"
  obtains (skip) uri rest where "queue s = uri # rest" "int (length (out s)) < maxFiles"
      "uriToString h uri \<in> visited s"
      "s' = s\<lparr>queue := rest, events := events s @ [Dequeued uri]\<rparr>"
  | (visit) uri rest where "queue s = uri # rest" "int (length (out s)) < maxFiles"
      "uriToString h uri \<notin> visited s"
      "s' = s\<lparr>queue := rest @ importsOf follow h wsRoot uri,
                      visited := insert (uriToString h uri) (visited s),
                      out := out s @ [uri],
                      events := events s @ [Dequeued uri, ReadText uri]\<rparr>"
proof (cases "queue s")
  case Nil
  with assms show ?thesis by (simp add: graph_step_def)
next
  case (Cons uri rest)
  with assms have lt: "int (length (out s)) < maxFiles"
    by (auto simp: graph_step_def split: if_splits)
  show ?thesis
  proof (cases "uriToString h uri \<in> visited s")
    case True
    with assms Cons lt graph_step_skip [of s uri rest maxFiles h follow wsRoot] skip show ?thesis by simp
  next
    case False
    with assms Cons lt graph_step_visit [of s uri rest maxFiles h follow wsRoot] visit show ?thesis by simp
  qed
qed

lemma graph_step_None:
  "graph_step follow h wsRoot maxFiles s = None
     \<longleftrightarrow> queue s = [] \<or> \<not> int (length (out s)) < maxFiles"
  by (auto simp: graph_step_def Let_def split: list.splits option.splits)

lemma collect_loop_stop:
  "graph_step follow h wsRoot maxFiles s = None \<Longrightarrow> collect_loop follow h wsRoot maxFiles s = s"
  by (subst collect_loop.simps) simp

lemma collect_loop_step:
  "graph_step follow h wsRoot maxFiles s = Some s'
     \<Longrightarrow> collect_loop follow h wsRoot maxFiles s = collect_loop follow h wsRoot maxFiles s'"
  by (subst collect_loop.simps) simp

lemma collect_loop_invariant:
  assumes "P s"
    and "\<And>s s'. P s \<Longrightarrow> graph_step follow h wsRoot maxFiles s = Some s' \<Longrightarrow> P s'"
  shows "P (collect_loop follow h wsRoot maxFiles s)"
  using assms
proof (induction follow h wsRoot maxFiles s rule: collect_loop.induct)
  case (1 follow h wsRoot maxFiles s)
  show ?case
  proof (cases "graph_step follow h wsRoot maxFiles s")
    case None
    with "1.prems"(1) show ?thesis by (simp add: collect_loop_stop)
  next
    case (Some s')
    with "1.prems" have "P s'" by blast
    with "1.IH" [OF Some] "1.prems"(2) Some show ?thesis by (simp add: collect_loop_step)
  qed
qed

lemma collect_loop_final:
  "graph_step follow h wsRoot maxFiles (collect_loop follow h wsRoot maxFiles s) = None"
proof (induction follow h wsRoot maxFiles s rule: collect_loop.induct)
  case (1 follow h wsRoot maxFiles s)
  then show ?case
    by (cases "graph_step follow h wsRoot maxFiles s") (simp_all add: collect_loop_stop collect_loop_step)
qed

lemma graph_step_wf: "wf {(s', s). graph_step follow h wsRoot maxFiles s = Some s'}"
proof (rule wf_subset)
  show "wf (measures [\<lambda>s. nat (maxFiles - int (length (out s))), \<lambda>s :: 'a graph_state. length (queue s)])"
    by simp
  show "{(s', s). graph_step follow h wsRoot maxFiles s = Some s'}
          \<subseteq> measures [\<lambda>s. nat (maxFiles - int (length (out s))), \<lambda>s. length (queue s)]"
    by (auto elim!: graph_step_cases)
qed


lemma run_visited_out:
  "visited (collectImportGraph_run follow h root wsRoot maxFiles)
       = uriToString h ` set (out (collectImportGraph_run follow h root wsRoot maxFiles))
   \<and> distinct (map (uriToString h) (out (collectImportGraph_run follow h root wsRoot maxFiles)))
   \<and> readsOf (events (collectImportGraph_run follow h root wsRoot maxFiles))
       = out (collectImportGraph_run follow h root wsRoot maxFiles)"
  unfolding collectImportGraph_run_def
proof (rule collect_loop_invariant
    [where P = "\<lambda>s. visited s = uriToString h ` set (out s)
                  \<and> distinct (map (uriToString h) (out s)) \<and> readsOf (events s) = out s"],
    goal_cases)
  case 1
  show ?case by simp
next
  case (2 s s')
  from 2(2) show ?case
  proof (cases rule: graph_step_cases)
    case (skip uri rest)
    with 2(1) show ?thesis by (simp add: readsOf_append)
  next
    case (visit uri rest)
    with 2(1) show ?thesis by (auto simp: readsOf_append)
  qed
qed

lemma run_length_out:
  "0 \<le> maxFiles \<Longrightarrow> int (length (out (collectImportGraph_run follow h root wsRoot maxFiles))) \<le> maxFiles"
  unfolding collectImportGraph_run_def
proof (rule collect_loop_invariant [where P = "\<lambda>s. int (length (out s)) \<le> maxFiles"], goal_cases)
  case 1
  then show ?case by simp
next
  case (2 s s')
  from 2(3) show ?case
  proof (cases rule: graph_step_cases)
    case (skip uri rest)
    with 2(2) show ?thesis by simp
  next
    case (visit uri rest)
    then show ?thesis by simp
  qed
qed

lemma run_root_first:
  assumes "1 \<le> maxFiles"
  shows "out (collectImportGraph_run follow h root wsRoot maxFiles) \<noteq> []
         \<and> hd (out (collectImportGraph_run follow h root wsRoot maxFiles)) = root"
proof -
  let ?s = "collectImportGraph_run follow h root wsRoot maxFiles"
  have inv: "(out ?s = [] \<and> queue ?s = [root] \<and> visited ?s = {}) \<or> (out ?s \<noteq> [] \<and> hd (out ?s) = root)"
    unfolding collectImportGraph_run_def
  proof (rule collect_loop_invariant
      [where P = "\<lambda>s. (out s = [] \<and> queue s = [root] \<and> visited s = {}) \<or> (out s \<noteq> [] \<and> hd (out s) = root)"],
      goal_cases)
    case 1
    show ?case by simp
  next
    case (2 s s')
    from 2(2) show ?case
    proof (cases rule: graph_step_cases)
      case (skip uri rest)
      with 2(1) show ?thesis by auto
    next
      case (visit uri rest)
      with 2(1) show ?thesis by auto
    qed
  qed
  have "graph_step follow h wsRoot maxFiles ?s = None"
    unfolding collectImportGraph_run_def by (rule collect_loop_final)
  then have "queue ?s = [] \<or> \<not> int (length (out ?s)) < maxFiles"
    by (simp add: graph_step_None)
  with inv assms show ?thesis by auto
qed

lemma run_closed:
  "(uriToString h root \<in> visited (collectImportGraph_run follow h root wsRoot maxFiles)
      \<or> root \<in> set (queue (collectImportGraph_run follow h root wsRoot maxFiles)))
   \<and> (\<forall>u \<in> set (out (collectImportGraph_run follow h root wsRoot maxFiles)).
        \<forall>v \<in> set (importsOf follow h wsRoot u).
          uriToString h v \<in> visited (collectImportGraph_run follow h root wsRoot maxFiles)
          \<or> v \<in> set (queue (collectImportGraph_run follow h root wsRoot maxFiles)))"
  unfolding collectImportGraph_run_def
proof (rule collect_loop_invariant
    [where P = "\<lambda>s. (uriToString h root \<in> visited s \<or> root \<in> set (queue s))
       \<and> (\<forall>u \<in> set (out s). \<forall>v \<in> set (importsOf follow h wsRoot u).
             uriToString h v \<in> visited s \<or> v \<in> set (queue s))"],
    goal_cases)
  case 1
  show ?case by simp
next
  case (2 s s')
  from 2(2) show ?case
  proof (cases rule: graph_step_cases)
    case (skip uri rest)
    with 2(1) show ?thesis by auto
  next
    case (visit uri rest)
    with 2(1) show ?thesis by auto
  qed
qed

lemma run_covers_closure:
  assumes inj: "inj (uriToString h)"
    and short: "int (length (out (collectImportGraph_run follow h root wsRoot maxFiles))) < maxFiles"
  shows "importClosure follow h wsRoot root \<subseteq> set (out (collectImportGraph_run follow h root wsRoot maxFiles))"
proof -
  define s where "s = collectImportGraph_run follow h root wsRoot maxFiles"
  have "graph_step follow h wsRoot maxFiles s = None"
    unfolding s_def collectImportGraph_run_def by (rule collect_loop_final)
  with short have q: "queue s = []" by (simp add: graph_step_None s_def)
  have vis: "visited s = uriToString h ` set (out s)"
    unfolding s_def by (simp add: run_visited_out)
  have key_in: "v \<in> set (out s)" if "uriToString h v \<in> visited s" for v
  proof -
    from that vis obtain w where "w \<in> set (out s)" "uriToString h v = uriToString h w" by auto
    with inj show ?thesis by (simp add: inj_eq)
  qed
  have closed: "(uriToString h root \<in> visited s \<or> root \<in> set (queue s))
     \<and> (\<forall>u \<in> set (out s). \<forall>v \<in> set (importsOf follow h wsRoot u).
            uriToString h v \<in> visited s \<or> v \<in> set (queue s))"
    unfolding s_def by (rule run_closed)
  from closed q have root: "root \<in> set (out s)" by (simp add: key_in)
  have succ: "v \<in> set (out s)" if "u \<in> set (out s)" "v \<in> set (importsOf follow h wsRoot u)" for u v
  proof -
    from closed that q have "uriToString h v \<in> visited s" by simp
    then show ?thesis by (rule key_in)
  qed
  have "v \<in> set (out s)"
    if "(root, v) \<in> {(u, w). w \<in> set (importsOf follow h wsRoot u)}\<^sup>*" for v
    using that
  proof (induction rule: rtrancl_induct)
    case base
    show ?case by (rule root)
  next
    case (step y z)
    then show ?case using succ by simp
  qed
  then show ?thesis by (auto simp: importClosure_def s_def)
qed

text \<open>
  Claim C2. For every root file and every cap \<open>N \<ge> 1\<close>, the list \<open>collectImportGraph\<close>
  returns starts with the root file, has no file twice (no two entries with the same
  \<open>toString\<close> key), and has at most \<open>N\<close> entries; when the closure of the explicit imports
  holds more than \<open>N\<close> files, the list has exactly \<open>N\<close> entries. Files are counted by
  their URI, which its string identifies (\<open>uriToString\<close> is injective).
\<close>

theorem collectImportGraph_capped:
  assumes "1 \<le> maxFiles"
  shows "collectImportGraph follow h root wsRoot maxFiles \<noteq> []
       \<and> hd (collectImportGraph follow h root wsRoot maxFiles) = root
       \<and> distinct (map (uriToString h) (collectImportGraph follow h root wsRoot maxFiles))
       \<and> distinct (collectImportGraph follow h root wsRoot maxFiles)
       \<and> int (length (collectImportGraph follow h root wsRoot maxFiles)) \<le> maxFiles
       \<and> (inj (uriToString h)
            \<and> (\<exists>S. S \<subseteq> importClosure follow h wsRoot root \<and> finite S \<and> maxFiles < int (card S))
          \<longrightarrow> int (length (collectImportGraph follow h root wsRoot maxFiles)) = maxFiles)"
proof -
  let ?s = "collectImportGraph_run follow h root wsRoot maxFiles"
  have d: "distinct (map (uriToString h) (out ?s))" by (simp add: run_visited_out)
  have le: "int (length (out ?s)) \<le> maxFiles" using assms by (intro run_length_out) simp
  have "int (length (out ?s)) = maxFiles"
    if inj: "inj (uriToString h)" and S: "S \<subseteq> importClosure follow h wsRoot root" "finite S"
      "maxFiles < int (card S)" for S
  proof (rule ccontr)
    assume "int (length (out ?s)) \<noteq> maxFiles"
    with le have short: "int (length (out ?s)) < maxFiles" by simp
    from run_covers_closure [OF inj short] S(1) have "S \<subseteq> set (out ?s)" by blast
    then have "card S \<le> card (set (out ?s))" by (intro card_mono) auto
    also have "\<dots> \<le> length (out ?s)" by (rule card_length)
    finally show False using short S(3) by simp
  qed
  with d le run_root_first [OF assms, of follow h root wsRoot] show ?thesis
    by (auto simp: collectImportGraph_def dest: distinct_map [THEN iffD1])
qed

lemma run_in_closure:
  "set (out (collectImportGraph_run follow h root wsRoot maxFiles))
     \<union> set (queue (collectImportGraph_run follow h root wsRoot maxFiles))
   \<subseteq> importClosure follow h wsRoot root"
  unfolding collectImportGraph_run_def
proof (rule collect_loop_invariant
    [where P = "\<lambda>s. set (out s) \<union> set (queue s) \<subseteq> importClosure follow h wsRoot root"],
    goal_cases)
  case 1
  show ?case by (simp add: importClosure_def)
next
  case (2 s s')
  from 2(2) show ?case
  proof (cases rule: graph_step_cases)
    case (skip uri rest)
    with 2(1) show ?thesis by auto
  next
    case (visit uri rest)
    with 2(1) have "uri \<in> importClosure follow h wsRoot root" by simp
    then have "set (importsOf follow h wsRoot uri) \<subseteq> importClosure follow h wsRoot root"
      by (auto simp: importClosure_def intro: rtrancl_into_rtrancl)
    with 2(1) visit show ?thesis by auto
  qed
qed

lemma distinct_in_singleton: "distinct xs \<Longrightarrow> set xs \<subseteq> {b} \<Longrightarrow> xs = [] \<or> xs = [b]"
proof (cases xs)
  case Nil
  then show ?thesis by simp
next
  case (Cons x ys)
  assume "distinct xs" "set xs \<subseteq> {b}"
  with Cons have "x = b" "set ys \<subseteq> {b}" "b \<notin> set ys" by auto
  then have "ys = []" by (cases ys) auto
  with Cons \<open>x = b\<close> show ?thesis by simp
qed

lemma two_cycle_out:
  assumes ab: "b \<in> set (importsOf follow h wsRoot a)"
    and a_in: "set (importsOf follow h wsRoot a) \<subseteq> {a, b}"
    and b_in: "set (importsOf follow h wsRoot b) \<subseteq> {a, b}"
    and ne: "uriToString h a \<noteq> uriToString h b" and cap: "2 \<le> maxFiles"
  shows "collectImportGraph follow h a wsRoot maxFiles = [a, b]"
proof -
  define s where "s = collectImportGraph_run follow h a wsRoot maxFiles"
  have "v \<in> {a, b}" if "(a, v) \<in> {(u, w). w \<in> set (importsOf follow h wsRoot u)}\<^sup>*" for v
    using that
  proof (induction rule: rtrancl_induct)
    case base
    show ?case by simp
  next
    case (step y z)
    with a_in b_in show ?case by auto
  qed
  then have "importClosure follow h wsRoot a \<subseteq> {a, b}" by (auto simp: importClosure_def)
  with run_in_closure [of follow h a wsRoot maxFiles] have sub: "set (out s) \<subseteq> {a, b}"
    by (auto simp: s_def)
  from cap have "1 \<le> maxFiles" by simp
  from run_root_first [OF this, of follow h a wsRoot]
  obtain xs where out: "out s = a # xs" by (cases "out s") (auto simp: s_def)
  have keys: "distinct (map (uriToString h) (out s))" and vis: "visited s = uriToString h ` set (out s)"
    unfolding s_def by (simp_all add: run_visited_out)
  from keys have d: "distinct (out s)" by (rule distinct_map [THEN iffD1, THEN conjunct1])
  from d sub out have "distinct xs" "set xs \<subseteq> {b}" by auto
  then have xs: "xs = [] \<or> xs = [b]" by (rule distinct_in_singleton)
  have "graph_step follow h wsRoot maxFiles s = None"
    unfolding s_def collectImportGraph_run_def by (rule collect_loop_final)
  then have "queue s = [] \<or> \<not> int (length (out s)) < maxFiles" by (simp add: graph_step_None)
  then have "xs \<noteq> []"
  proof
    assume q: "queue s = []"
    have "\<forall>u \<in> set (out s). \<forall>v \<in> set (importsOf follow h wsRoot u).
            uriToString h v \<in> visited s \<or> v \<in> set (queue s)"
      using run_closed [of h a follow wsRoot maxFiles] by (simp add: s_def)
    with out ab q have "uriToString h b \<in> visited s" by auto
    with vis obtain w where w: "w \<in> set (out s)" "uriToString h w = uriToString h b" by auto
    with sub ne have "w = b" by auto
    with w(1) out ne show ?thesis by auto
  next
    assume "\<not> int (length (out s)) < maxFiles"
    with cap out show ?thesis by auto
  qed
  with xs out show ?thesis by (simp add: collectImportGraph_def s_def)
qed

text \<open>
  Claim C1, as amended. For every root file, every host (so every import graph, cyclic or
  not) and every cap, the loop of \<open>collectImportGraph\<close> terminates: its step relation is
  well-founded. The visited set, keyed by \<open>uri.toString()\<close>, lets every file be read and
  scanned at most once, and the files read are the files returned. (A file can be taken
  off the queue more than once: every later time it is skipped before the read.) When
  the root \<open>a\<close> imports \<open>b\<close>, the two import nothing but each other (or themselves, any
  number of times) and the cap is at least 2, exactly these two files are returned.
\<close>

theorem collectImportGraph_terminates:
  "wf {(s', s). graph_step follow h wsRoot maxFiles s = Some s'}
   \<and> distinct (map (uriToString h) (readsOf (events (collectImportGraph_run follow h root wsRoot maxFiles))))
   \<and> readsOf (events (collectImportGraph_run follow h root wsRoot maxFiles))
        = collectImportGraph follow h root wsRoot maxFiles
   \<and> (b \<in> set (importsOf follow h wsRoot a)
        \<and> set (importsOf follow h wsRoot a) \<subseteq> {a, b} \<and> set (importsOf follow h wsRoot b) \<subseteq> {a, b}
        \<and> uriToString h a \<noteq> uriToString h b \<and> 2 \<le> maxFiles
      \<longrightarrow> collectImportGraph follow h a wsRoot maxFiles = [a, b])"
proof (intro conjI impI)
  show "wf {(s', s). graph_step follow h wsRoot maxFiles s = Some s'}"
    by (rule graph_step_wf)
  show "distinct (map (uriToString h) (readsOf (events (collectImportGraph_run follow h root wsRoot maxFiles))))"
    by (simp add: run_visited_out)
  show "readsOf (events (collectImportGraph_run follow h root wsRoot maxFiles))
          = collectImportGraph follow h root wsRoot maxFiles"
    by (simp add: run_visited_out collectImportGraph_def)
  assume "b \<in> set (importsOf follow h wsRoot a)
        \<and> set (importsOf follow h wsRoot a) \<subseteq> {a, b} \<and> set (importsOf follow h wsRoot b) \<subseteq> {a, b}
        \<and> uriToString h a \<noteq> uriToString h b \<and> 2 \<le> maxFiles"
  then show "collectImportGraph follow h a wsRoot maxFiles = [a, b]"
    using two_cycle_out [of b follow h wsRoot a maxFiles] by blast
qed

theorem collectImportGraph_terminates_witness:
  "importsOf isFollowable rel_cycle_host ''/w'' ''/w/a.css'' = [''/w/b.css'', ''/w/b.css'']
   \<and> importsOf isFollowable rel_cycle_host ''/w'' ''/w/b.css'' = [''/w/a.css'', ''/w/a.css'']
   \<and> uriToString rel_cycle_host ''/w/a.css'' \<noteq> uriToString rel_cycle_host ''/w/b.css''
   \<and> (2::int) \<le> 120
   \<and> collectImportGraph isFollowable rel_cycle_host ''/w/a.css'' ''/w'' 120 = [''/w/a.css'', ''/w/b.css'']
   \<and> readsOf (events (collectImportGraph_run isFollowable rel_cycle_host ''/w/a.css'' ''/w'' 120))
        = [''/w/a.css'', ''/w/b.css'']
   \<and> importsOf isFollowable cycle_host ''/w'' ''/w/a.css'' = [''/w/b.css'']
   \<and> importsOf isFollowable cycle_host ''/w'' ''/w/b.css'' = [''/w/a.css'']
   \<and> collectImportGraph isFollowable cycle_host ''/w/a.css'' ''/w'' 120 = [''/w/a.css'', ''/w/b.css'']"
proof -
  have ab: "importsOf isFollowable rel_cycle_host ''/w'' ''/w/a.css'' = [''/w/b.css'', ''/w/b.css'']"
    by code_simp
  have ba: "importsOf isFollowable rel_cycle_host ''/w'' ''/w/b.css'' = [''/w/a.css'', ''/w/a.css'']"
    by code_simp
  have ne: "uriToString rel_cycle_host ''/w/a.css'' \<noteq> uriToString rel_cycle_host ''/w/b.css''"
    by (simp add: rel_cycle_host_def)
  have ab': "importsOf isFollowable cycle_host ''/w'' ''/w/a.css'' = [''/w/b.css'']"
    by code_simp
  have ba': "importsOf isFollowable cycle_host ''/w'' ''/w/b.css'' = [''/w/a.css'']"
    by code_simp
  have ne': "uriToString cycle_host ''/w/a.css'' \<noteq> uriToString cycle_host ''/w/b.css''"
    by (simp add: cycle_host_def)
  note rel = collectImportGraph_terminates
    [of isFollowable rel_cycle_host "''/w''" 120 "''/w/a.css''" "''/w/b.css''" "''/w/a.css''"]
  note plain = collectImportGraph_terminates
    [of isFollowable cycle_host "''/w''" 120 "''/w/a.css''" "''/w/b.css''" "''/w/a.css''"]
  have r: "collectImportGraph isFollowable rel_cycle_host ''/w/a.css'' ''/w'' 120 = [''/w/a.css'', ''/w/b.css'']"
    using rel ab ba ne by simp
  have p: "collectImportGraph isFollowable cycle_host ''/w/a.css'' ''/w'' 120 = [''/w/a.css'', ''/w/b.css'']"
    using plain ab' ba' ne' by simp
  have reads: "readsOf (events (collectImportGraph_run isFollowable rel_cycle_host ''/w/a.css'' ''/w'' 120))
        = [''/w/a.css'', ''/w/b.css'']"
    using rel r by simp
  show ?thesis
    by (intro conjI ab ba ne r reads ab' ba' p) simp
qed

text \<open>
  In the two-file cycle the root is taken off the queue twice: \<open>b.css\<close> pushes it again,
  and the visited set is consulted only after \<open>queue.shift()\<close>.
\<close>

theorem collectImportGraph_dequeue_counterexample:
  "dequeuesOf (events (collectImportGraph_run isFollowable cycle_host ''/w/a.css'' ''/w'' 120))
     = [''/w/a.css'', ''/w/b.css'', ''/w/a.css'']
   \<and> \<not> distinct (dequeuesOf (events (collectImportGraph_run isFollowable cycle_host ''/w/a.css'' ''/w'' 120)))"
  by code_simp

theorem collectImportGraph_capped_witness:
  "(1::int) \<le> 1
   \<and> collectImportGraph isFollowable_theme cycle_host ''/w/a.css'' ''/w'' 1 = [''/w/a.css'']
   \<and> inj (uriToString cycle_host)
   \<and> {''/w/a.css'', ''/w/b.css''} \<subseteq> importClosure isFollowable_theme cycle_host ''/w'' ''/w/a.css''
   \<and> (1::int) < int (card {''/w/a.css'', ''/w/b.css''})
   \<and> int (length (collectImportGraph isFollowable_theme cycle_host ''/w/a.css'' ''/w'' 1)) = 1"
proof -
  have ab: "importsOf isFollowable_theme cycle_host ''/w'' ''/w/a.css'' = [''/w/b.css'']"
    by code_simp
  have val: "collectImportGraph isFollowable_theme cycle_host ''/w/a.css'' ''/w'' 1 = [''/w/a.css'']"
    by code_simp
  have inj: "inj (uriToString cycle_host)"
    by (simp add: cycle_host_def inj_def)
  have sub: "{''/w/a.css'', ''/w/b.css''} \<subseteq> importClosure isFollowable_theme cycle_host ''/w'' ''/w/a.css''"
    using ab by (auto simp: importClosure_def intro: r_into_rtrancl)
  have card: "(1::int) < int (card {''/w/a.css'', ''/w/b.css''})" by simp
  have "\<exists>S. S \<subseteq> importClosure isFollowable_theme cycle_host ''/w'' ''/w/a.css'' \<and> finite S
          \<and> 1 < int (card S)"
    using sub card by (intro exI [of _ "{''/w/a.css'', ''/w/b.css''}"]) simp
  with collectImportGraph_capped [of 1 isFollowable_theme cycle_host "''/w/a.css''" "''/w''"] inj
  have "int (length (collectImportGraph isFollowable_theme cycle_host ''/w/a.css'' ''/w'' 1)) = 1"
    by simp
  with val inj sub card show ?thesis by simp
qed

subsection \<open>Aggregation\<close>

lemma map_of_addOccurrence_same:
  "map_of (addOccurrence occ es) (makeColorKey occ)
     = (case map_of es (makeColorKey occ) of
          None \<Rightarrow> Some \<lparr>e_key = makeColorKey occ, e_kind = o_kind occ,
                    e_name = (case occ of VarOccur name _ _ _ _ \<Rightarrow> Some name | LiteralOccur _ _ _ _ \<Rightarrow> None),
                    e_value = o_value occ, e_occurrences = [occ]\<rparr>
        | Some e \<Rightarrow> Some (e\<lparr>e_occurrences := e_occurrences e @ [occ]\<rparr>))"
proof (cases "map_of es (makeColorKey occ)")
  case None
  then show ?thesis by (simp add: addOccurrence_def Let_def map_add_def)
next
  case (Some e)
  have "map_of (map (\<lambda>(k, e). if k = key then (k, f e) else (k, e)) es) key = map_option f (map_of es key)"
    for key :: string and f :: "ColorEntry \<Rightarrow> ColorEntry"
    by (induction es) auto
  with Some show ?thesis by (simp add: addOccurrence_def Let_def)
qed

lemma map_of_addOccurrence_other:
  "k \<noteq> makeColorKey occ \<Longrightarrow> map_of (addOccurrence occ es) k = map_of es k"
proof -
  assume ne: "k \<noteq> makeColorKey occ"
  have "map_of (map (\<lambda>(k, e). if k = key then (k, f e) else (k, e)) es) k = map_of es k"
    if "k \<noteq> key" for key :: string and f :: "ColorEntry \<Rightarrow> ColorEntry"
    using that by (induction es) auto
  with ne show ?thesis
    by (auto simp: addOccurrence_def Let_def map_add_def split: option.splits)
qed

lemma keys_addOccurrence:
  "map fst (addOccurrence occ es)
     = (if makeColorKey occ \<in> set (map fst es) then map fst es else map fst es @ [makeColorKey occ])"
proof -
  have "map fst (map (\<lambda>(k, e). if k = key then (k, f e) else (k, e)) es) = map fst es"
    for key :: string and f :: "ColorEntry \<Rightarrow> ColorEntry"
    by (induction es) auto
  moreover have "(map_of es (makeColorKey occ) = None) = (makeColorKey occ \<notin> set (map fst es))"
    by (simp add: map_of_eq_None_iff)
  ultimately show ?thesis
    by (cases "map_of es (makeColorKey occ)") (simp_all add: addOccurrence_def Let_def)
qed

lemma fold_addOccurrence_keys:
  "distinct (map fst es) \<Longrightarrow> distinct (map fst (fold addOccurrence occs es))"
  by (induction occs arbitrary: es) (simp_all add: keys_addOccurrence)

lemma fold_addOccurrence_occurrences:
  "map_of (fold addOccurrence occs es) k = Some e
     \<Longrightarrow> e_occurrences e
           = (case map_of es k of None \<Rightarrow> [] | Some e0 \<Rightarrow> e_occurrences e0)
             @ filter (\<lambda>occ. makeColorKey occ = k) occs"
proof (induction occs arbitrary: es)
  case Nil
  then show ?case by simp
next
  case (Cons occ occs)
  from Cons.prems have "map_of (fold addOccurrence occs (addOccurrence occ es)) k = Some e" by simp
  from Cons.IH [OF this] show ?case
    by (cases "k = makeColorKey occ")
       (auto simp: map_of_addOccurrence_same map_of_addOccurrence_other split: option.splits)
qed

lemma fold_addOccurrence_dom:
  "fst ` set (fold addOccurrence occs es) = fst ` set es \<union> makeColorKey ` set occs"
proof (induction occs arbitrary: es)
  case Nil
  show ?case by simp
next
  case (Cons occ occs)
  have "fst ` set (addOccurrence occ es) = insert (makeColorKey occ) (fst ` set es)"
    using keys_addOccurrence [of occ es, THEN arg_cong, of set] by (auto split: if_splits)
  with Cons show ?case by simp
qed

lemma aggregate_occurrences:
  "(k, e) \<in> set (aggregate occByFile)
     \<Longrightarrow> e_occurrences e = filter (\<lambda>occ. makeColorKey occ = k) (concat occByFile)"
proof -
  assume "(k, e) \<in> set (aggregate occByFile)"
  moreover have "distinct (map fst (aggregate occByFile))"
    unfolding aggregate_def by (rule fold_addOccurrence_keys) simp
  ultimately have "map_of (aggregate occByFile) k = Some e" by simp
  from fold_addOccurrence_occurrences [OF this [unfolded aggregate_def]] show ?thesis by simp
qed

lemma aggregate_has_entry:
  "occ \<in> set (concat occByFile) \<Longrightarrow> \<exists>e. (makeColorKey occ, e) \<in> set (aggregate occByFile)"
proof -
  assume "occ \<in> set (concat occByFile)"
  then have "makeColorKey occ \<in> fst ` set (aggregate occByFile)"
    unfolding aggregate_def fold_addOccurrence_dom by blast
  then show ?thesis by force
qed



lemma lit_key_inj:
  "makeColorKey (LiteralOccur v1 f1 r1 u1) = makeColorKey (LiteralOccur v2 f2 r2 u2)
     \<longleftrightarrow> normalizeColorKey v1 = normalizeColorKey v2"
  by (simp add: makeColorKey_def)

lemma code_toLower:
  "code (toLower c)
     = (if isUpper c \<or> (192 \<le> code c \<and> code c \<le> 222 \<and> code c \<noteq> 215) then code c + 32
        else code c)"
proof (cases c)
  case (Char b0 b1 b2 b3 b4 b5 b6 b7)
  define low :: nat where
    "low = of_bool b0 + 2 * of_bool b1 + 4 * of_bool b2 + 8 * of_bool b3 + 16 * of_bool b4"
  have low: "low < 32"
    unfolding low_def by (cases b0; cases b1; cases b2; cases b3; cases b4) simp_all
  have c: "code c = low + 32 * of_bool b5 + 64 * of_bool b6 + 128 * of_bool b7"
    by (simp add: Char code_def low_def)
  have l: "code (Char b0 b1 b2 b3 b4 True x y) = low + 32 + 64 * of_bool x + 128 * of_bool y" for x y
    by (simp add: code_def low_def)
  have t: "toLower c
     = (if isUpper c \<or> (192 \<le> code c \<and> code c \<le> 222 \<and> code c \<noteq> 215)
        then Char b0 b1 b2 b3 b4 True b6 b7 else c)"
    by (simp add: toLower_def Char)
  show ?thesis
    unfolding t using low
    by (cases b5; cases b6; cases b7) (simp_all add: l isUpper_def c)
qed

lemma isSpace_toLower: "isSpace (toLower c) = isSpace c"
  unfolding isSpace_def code_toLower by (auto simp: isUpper_def)

lemma filter_dropWhile: "filter (\<lambda>c. \<not> P c) (dropWhile P xs) = filter (\<lambda>c. \<not> P c) xs"
  by (induction xs) simp_all

lemma filter_trim: "filter (\<lambda>c. \<not> isSpace c) (trim v) = filter (\<lambda>c. \<not> isSpace c) v"
  by (simp add: trim_def rev_filter [symmetric] filter_dropWhile)

lemma normalizeColorKey_eq: "normalizeColorKey v = map toLower (filter (\<lambda>c. \<not> isSpace c) v)"
proof -
  have "normalizeColorKey v = filter (\<lambda>c. \<not> isSpace c) (map toLower (trim v))"
    by (simp add: normalizeColorKey_def removeSpaces_def toLowerCase_def)
  also have "\<dots> = map toLower (filter (\<lambda>c. \<not> isSpace c) (trim v))"
    by (simp add: filter_map comp_def isSpace_toLower)
  finally show ?thesis by (simp add: filter_trim)
qed

lemma map_eq_list_all2: "map f xs = map f ys \<longleftrightarrow> list_all2 (\<lambda>a b. f a = f b) xs ys"
proof -
  have "map f xs = map f ys \<longleftrightarrow> list_all2 (=) (map f xs) (map f ys)"
    by (simp add: list.rel_eq)
  then show ?thesis by (simp add: list_all2_map1 list_all2_map2)
qed

lemma hex_not_space: "isHexDigit d \<Longrightarrow> \<not> isSpace d"
  by (auto simp: isHexDigit_def isDigit_def isSpace_def)

lemma length_key_hex:
  "list_all isHexDigit ds \<Longrightarrow> length (normalizeColorKey (''#'' @ ds)) = Suc (length ds)"
proof -
  assume "list_all isHexDigit ds"
  then have "filter (\<lambda>c. \<not> isSpace c) ds = ds"
    by (auto simp: list_all_iff filter_id_conv dest: hex_not_space)
  then show ?thesis
    by (simp add: normalizeColorKey_eq isSpace_def code_def)
qed

lemma shorthand_apart:
  assumes "ds \<noteq> []" and "list_all isHexDigit ds"
  shows "normalizeColorKey (''#'' @ ds) \<noteq> normalizeColorKey (''#'' @ concat (map (\<lambda>d. [d, d]) ds))"
proof -
  have len: "length (concat (map (\<lambda>d. [d, d]) ds)) = 2 * length ds"
    by (induction ds) simp_all
  have "list_all isHexDigit (concat (map (\<lambda>d. [d, d]) ds))"
    using assms(2) by (induction ds) simp_all
  from length_key_hex [OF this] length_key_hex [OF assms(2)] len assms(1)
  have "length (normalizeColorKey (''#'' @ ds))
          \<noteq> length (normalizeColorKey (''#'' @ concat (map (\<lambda>d. [d, d]) ds)))"
    by simp
  then show ?thesis by metis
qed

text \<open>
  Claim C10. Two literal occurrences are in one entry exactly when their values are equal
  after \<open>normalizeColorKey\<close>. The normal form of a value is the value without its white
  space characters (so trimming adds nothing) and with every character in lower case,
  where lower case moves the letters A-Z (and the capitals of Latin-1) up by 32 and
  leaves every other character as it is. So two values have the same normal form exactly
  when, white space apart, they have the same length and agree character by character up
  to case. Nothing else is normalised: values with different numbers of characters other
  than white space have different normal forms, and so has the shorthand \<open>#\<close> followed by
  hex digits and the spelling that doubles each digit, as \<open>#fff\<close> and \<open>#ffffff\<close>; two
  occurrences whose values have different normal forms are in two distinct entries.
\<close>

theorem literal_entries_by_normalized_value:
  "(LiteralOccur v1 f1 r1 u1 \<in> set (concat occByFile) \<and> LiteralOccur v2 f2 r2 u2 \<in> set (concat occByFile)
      \<longrightarrow> ((\<exists>e \<in> set (allEntries occByFile).
               LiteralOccur v1 f1 r1 u1 \<in> set (e_occurrences e)
               \<and> LiteralOccur v2 f2 r2 u2 \<in> set (e_occurrences e))
            \<longleftrightarrow> normalizeColorKey v1 = normalizeColorKey v2))
   \<and> (LiteralOccur v1 f1 r1 u1 \<in> set (concat occByFile) \<and> LiteralOccur v2 f2 r2 u2 \<in> set (concat occByFile)
        \<and> normalizeColorKey v1 \<noteq> normalizeColorKey v2
      \<longrightarrow> (\<exists>e1 \<in> set (allEntries occByFile). \<exists>e2 \<in> set (allEntries occByFile).
             e1 \<noteq> e2 \<and> LiteralOccur v1 f1 r1 u1 \<in> set (e_occurrences e1)
             \<and> LiteralOccur v2 f2 r2 u2 \<in> set (e_occurrences e2)))
   \<and> normalizeColorKey v1 = map toLower (filter (\<lambda>c. \<not> isSpace c) v1)
   \<and> code (toLower c)
       = (if isUpper c \<or> (192 \<le> code c \<and> code c \<le> 222 \<and> code c \<noteq> 215) then code c + 32
          else code c)
   \<and> (normalizeColorKey v1 = normalizeColorKey v2
        \<longleftrightarrow> list_all2 (\<lambda>a b. toLower a = toLower b)
              (filter (\<lambda>c. \<not> isSpace c) v1) (filter (\<lambda>c. \<not> isSpace c) v2))
   \<and> (length (filter (\<lambda>c. \<not> isSpace c) v1) \<noteq> length (filter (\<lambda>c. \<not> isSpace c) v2)
        \<longrightarrow> normalizeColorKey v1 \<noteq> normalizeColorKey v2)
   \<and> (ds \<noteq> [] \<and> list_all isHexDigit ds
        \<longrightarrow> normalizeColorKey (''#'' @ ds) \<noteq> normalizeColorKey (''#'' @ concat (map (\<lambda>d. [d, d]) ds)))
   \<and> normalizeColorKey ''#fff'' = ''#fff''
   \<and> normalizeColorKey ''#ffffff'' = ''#ffffff''
   \<and> normalizeColorKey ''#fff'' \<noteq> normalizeColorKey ''#ffffff''"
proof -
  have iff: "(\<exists>e \<in> set (allEntries occByFile).
               LiteralOccur v1 f1 r1 u1 \<in> set (e_occurrences e)
               \<and> LiteralOccur v2 f2 r2 u2 \<in> set (e_occurrences e))
            \<longleftrightarrow> normalizeColorKey v1 = normalizeColorKey v2"
    if in1: "LiteralOccur v1 f1 r1 u1 \<in> set (concat occByFile)"
      and in2: "LiteralOccur v2 f2 r2 u2 \<in> set (concat occByFile)"
  proof
    assume "\<exists>e \<in> set (allEntries occByFile).
               LiteralOccur v1 f1 r1 u1 \<in> set (e_occurrences e)
               \<and> LiteralOccur v2 f2 r2 u2 \<in> set (e_occurrences e)"
    then obtain k e where ke: "(k, e) \<in> set (aggregate occByFile)"
      and m: "LiteralOccur v1 f1 r1 u1 \<in> set (e_occurrences e)"
        "LiteralOccur v2 f2 r2 u2 \<in> set (e_occurrences e)"
      by (auto simp: allEntries_def)
    from m have "makeColorKey (LiteralOccur v1 f1 r1 u1) = k" "makeColorKey (LiteralOccur v2 f2 r2 u2) = k"
      unfolding aggregate_occurrences [OF ke] by simp_all
    then have "makeColorKey (LiteralOccur v1 f1 r1 u1) = makeColorKey (LiteralOccur v2 f2 r2 u2)"
      by simp
    then show "normalizeColorKey v1 = normalizeColorKey v2"
      by (simp only: lit_key_inj)
  next
    assume "normalizeColorKey v1 = normalizeColorKey v2"
    then have same: "makeColorKey (LiteralOccur v2 f2 r2 u2) = makeColorKey (LiteralOccur v1 f1 r1 u1)"
      by (simp add: lit_key_inj)
    from aggregate_has_entry [OF in1] obtain e where
      e: "(makeColorKey (LiteralOccur v1 f1 r1 u1), e) \<in> set (aggregate occByFile)" by blast
    from aggregate_occurrences [OF e] in1 in2 same
    have "LiteralOccur v1 f1 r1 u1 \<in> set (e_occurrences e)" "LiteralOccur v2 f2 r2 u2 \<in> set (e_occurrences e)"
      by simp_all
    moreover from e have "e \<in> set (allEntries occByFile)" by (force simp: allEntries_def)
    ultimately show "\<exists>e \<in> set (allEntries occByFile).
               LiteralOccur v1 f1 r1 u1 \<in> set (e_occurrences e)
               \<and> LiteralOccur v2 f2 r2 u2 \<in> set (e_occurrences e)"
      by blast
  qed
  have two: "\<exists>e1 \<in> set (allEntries occByFile). \<exists>e2 \<in> set (allEntries occByFile).
             e1 \<noteq> e2 \<and> LiteralOccur v1 f1 r1 u1 \<in> set (e_occurrences e1)
             \<and> LiteralOccur v2 f2 r2 u2 \<in> set (e_occurrences e2)"
    if in1: "LiteralOccur v1 f1 r1 u1 \<in> set (concat occByFile)"
      and in2: "LiteralOccur v2 f2 r2 u2 \<in> set (concat occByFile)"
      and ne: "normalizeColorKey v1 \<noteq> normalizeColorKey v2"
  proof -
    from aggregate_has_entry [OF in1] obtain e1 where
      e1: "(makeColorKey (LiteralOccur v1 f1 r1 u1), e1) \<in> set (aggregate occByFile)" by blast
    from aggregate_has_entry [OF in2] obtain e2 where
      e2: "(makeColorKey (LiteralOccur v2 f2 r2 u2), e2) \<in> set (aggregate occByFile)" by blast
    from aggregate_occurrences [OF e1] in1
    have m1: "LiteralOccur v1 f1 r1 u1 \<in> set (e_occurrences e1)" by simp
    from aggregate_occurrences [OF e2] in2
    have m2: "LiteralOccur v2 f2 r2 u2 \<in> set (e_occurrences e2)" by simp
    have "e1 \<noteq> e2"
    proof
      assume "e1 = e2"
      with m2 have "LiteralOccur v2 f2 r2 u2 \<in> set (e_occurrences e1)" by simp
      then have "makeColorKey (LiteralOccur v2 f2 r2 u2) = makeColorKey (LiteralOccur v1 f1 r1 u1)"
        unfolding aggregate_occurrences [OF e1] by simp
      with ne show False by (simp add: lit_key_inj)
    qed
    moreover from e1 e2 have "e1 \<in> set (allEntries occByFile)" "e2 \<in> set (allEntries occByFile)"
      by (force simp: allEntries_def)+
    ultimately show ?thesis using m1 m2 by blast
  qed
  have n: "normalizeColorKey ''#fff'' = ''#fff''" "normalizeColorKey ''#ffffff'' = ''#ffffff''"
    by (simp_all add: normalizeColorKey_def removeSpaces_def toLowerCase_def toLower_def trim_def
        isSpace_def isUpper_def code_def)
  have pointwise: "normalizeColorKey v1 = normalizeColorKey v2
        \<longleftrightarrow> list_all2 (\<lambda>a b. toLower a = toLower b)
              (filter (\<lambda>c. \<not> isSpace c) v1) (filter (\<lambda>c. \<not> isSpace c) v2)"
    unfolding normalizeColorKey_eq by (rule map_eq_list_all2)
  have lens: "normalizeColorKey v1 \<noteq> normalizeColorKey v2"
    if "length (filter (\<lambda>c. \<not> isSpace c) v1) \<noteq> length (filter (\<lambda>c. \<not> isSpace c) v2)"
    using that unfolding pointwise by (auto dest: list_all2_lengthD)
  show ?thesis
  proof (intro conjI impI)
    assume "LiteralOccur v1 f1 r1 u1 \<in> set (concat occByFile)
            \<and> LiteralOccur v2 f2 r2 u2 \<in> set (concat occByFile)"
    then show "(\<exists>e \<in> set (allEntries occByFile).
               LiteralOccur v1 f1 r1 u1 \<in> set (e_occurrences e)
               \<and> LiteralOccur v2 f2 r2 u2 \<in> set (e_occurrences e))
            \<longleftrightarrow> normalizeColorKey v1 = normalizeColorKey v2"
      using iff by blast
  next
    assume "LiteralOccur v1 f1 r1 u1 \<in> set (concat occByFile)
            \<and> LiteralOccur v2 f2 r2 u2 \<in> set (concat occByFile)
            \<and> normalizeColorKey v1 \<noteq> normalizeColorKey v2"
    then show "\<exists>e1 \<in> set (allEntries occByFile). \<exists>e2 \<in> set (allEntries occByFile).
             e1 \<noteq> e2 \<and> LiteralOccur v1 f1 r1 u1 \<in> set (e_occurrences e1)
             \<and> LiteralOccur v2 f2 r2 u2 \<in> set (e_occurrences e2)"
      using two by blast
  next
    show "normalizeColorKey v1 = map toLower (filter (\<lambda>c. \<not> isSpace c) v1)"
      by (rule normalizeColorKey_eq)
    show "code (toLower c)
       = (if isUpper c \<or> (192 \<le> code c \<and> code c \<le> 222 \<and> code c \<noteq> 215) then code c + 32
          else code c)"
      by (rule code_toLower)
    show "normalizeColorKey v1 = normalizeColorKey v2
        \<longleftrightarrow> list_all2 (\<lambda>a b. toLower a = toLower b)
              (filter (\<lambda>c. \<not> isSpace c) v1) (filter (\<lambda>c. \<not> isSpace c) v2)"
      by (rule pointwise)
    show "normalizeColorKey ''#fff'' = ''#fff''" by (rule n(1))
    show "normalizeColorKey ''#ffffff'' = ''#ffffff''" by (rule n(2))
    show "normalizeColorKey ''#fff'' \<noteq> normalizeColorKey ''#ffffff''" unfolding n by simp
  next
    assume "length (filter (\<lambda>c. \<not> isSpace c) v1) \<noteq> length (filter (\<lambda>c. \<not> isSpace c) v2)"
    then show "normalizeColorKey v1 \<noteq> normalizeColorKey v2"
      by (rule lens)
  next
    assume "ds \<noteq> [] \<and> list_all isHexDigit ds"
    then show "normalizeColorKey (''#'' @ ds) \<noteq> normalizeColorKey (''#'' @ concat (map (\<lambda>d. [d, d]) ds))"
      using shorthand_apart [of ds] by blast
  qed
qed

theorem literal_entries_by_normalized_value_witness:
  "LiteralOccur ''#FFF'' ''a.css'' \<lparr>r_line = 3, r_startCol = 9, r_endCol = 13\<rparr>
       \<lparr>u_isDefinition = False, u_scope = None, u_property = None, u_line = 3\<rparr>
     \<in> set (concat [[LiteralOccur ''#FFF'' ''a.css'' \<lparr>r_line = 3, r_startCol = 9, r_endCol = 13\<rparr>
                         \<lparr>u_isDefinition = False, u_scope = None, u_property = None, u_line = 3\<rparr>],
                      [LiteralOccur '' #f ff'' ''b.tsx'' \<lparr>r_line = 1, r_startCol = 0, r_endCol = 6\<rparr>
                         \<lparr>u_isDefinition = False, u_scope = None, u_property = None, u_line = 1\<rparr>]])
   \<and> normalizeColorKey ''#FFF'' = normalizeColorKey '' #f ff''
   \<and> map (map o_file \<circ> e_occurrences)
         (allEntries [[LiteralOccur ''#FFF'' ''a.css'' \<lparr>r_line = 3, r_startCol = 9, r_endCol = 13\<rparr>
                         \<lparr>u_isDefinition = False, u_scope = None, u_property = None, u_line = 3\<rparr>],
                      [LiteralOccur '' #f ff'' ''b.tsx'' \<lparr>r_line = 1, r_startCol = 0, r_endCol = 6\<rparr>
                         \<lparr>u_isDefinition = False, u_scope = None, u_property = None, u_line = 1\<rparr>]])
       = [[''a.css'', ''b.tsx'']]
   \<and> list_all isHexDigit ''aBc''
   \<and> concat (map (\<lambda>d. [d, d]) ''aBc'') = ''aaBBcc''
   \<and> normalizeColorKey ''#aBc'' \<noteq> normalizeColorKey ''#aaBBcc''
   \<and> length (filter (\<lambda>c. \<not> isSpace c) ''#abc '') \<noteq> length (filter (\<lambda>c. \<not> isSpace c) ''#abcf'')
   \<and> normalizeColorKey ''#abc '' \<noteq> normalizeColorKey ''#abcf''
   \<and> map (map o_value \<circ> e_occurrences)
         (allEntries [[LiteralOccur ''#aBc'' ''a.css'' \<lparr>r_line = 1, r_startCol = 0, r_endCol = 4\<rparr>
                         \<lparr>u_isDefinition = False, u_scope = None, u_property = None, u_line = 1\<rparr>,
                       LiteralOccur ''#aaBBcc'' ''a.css'' \<lparr>r_line = 2, r_startCol = 0, r_endCol = 7\<rparr>
                         \<lparr>u_isDefinition = False, u_scope = None, u_property = None, u_line = 2\<rparr>]])
       = [[''#aBc''], [''#aaBBcc'']]"
proof -
  define o1 where "o1 = LiteralOccur ''#FFF'' ''a.css'' \<lparr>r_line = 3, r_startCol = 9, r_endCol = 13\<rparr>
       \<lparr>u_isDefinition = False, u_scope = None, u_property = None, u_line = 3\<rparr>"
  define o2 where "o2 = LiteralOccur '' #f ff'' ''b.tsx'' \<lparr>r_line = 1, r_startCol = 0, r_endCol = 6\<rparr>
       \<lparr>u_isDefinition = False, u_scope = None, u_property = None, u_line = 1\<rparr>"
  have n: "normalizeColorKey ''#FFF'' = normalizeColorKey '' #f ff''"
    by (simp add: normalizeColorKey_def removeSpaces_def toLowerCase_def toLower_def trim_def
        isSpace_def isUpper_def code_def)
  have v: "map (map o_file \<circ> e_occurrences) (allEntries [[o1], [o2]]) = [[''a.css'', ''b.tsx'']]"
    unfolding o1_def o2_def by code_simp
  have m: "o1 \<in> set (concat [[o1], [o2]])" "o2 \<in> set (concat [[o1], [o2]])" by simp_all
  from literal_entries_by_normalized_value
    [of "''#FFF''" "''a.css''" _ _ "[[o1], [o2]]" "'' #f ff''" "''b.tsx''"] m n
  have "\<exists>e \<in> set (allEntries [[o1], [o2]]). o1 \<in> set (e_occurrences e) \<and> o2 \<in> set (e_occurrences e)"
    unfolding o1_def o2_def by simp
  have hex: "list_all isHexDigit ''aBc''"
    by (simp add: isHexDigit_def isDigit_def code_def)
  have dbl: "concat (map (\<lambda>d. [d, d]) ''aBc'') = ''aaBBcc''" by simp
  note doubled = literal_entries_by_normalized_value
    [where ds = "''aBc''", THEN conjunct2, THEN conjunct2, THEN conjunct2, THEN conjunct2,
      THEN conjunct2, THEN conjunct2, THEN conjunct1, rule_format]
  have "normalizeColorKey (''#'' @ ''aBc'') \<noteq> normalizeColorKey (''#'' @ concat (map (\<lambda>d. [d, d]) ''aBc''))"
    using hex by (intro doubled) simp
  then have short: "normalizeColorKey ''#aBc'' \<noteq> normalizeColorKey ''#aaBBcc''" by simp
  have len: "length (filter (\<lambda>c. \<not> isSpace c) ''#abc '') \<noteq> length (filter (\<lambda>c. \<not> isSpace c) ''#abcf'')"
    by (simp add: isSpace_def code_def)
  note counted = literal_entries_by_normalized_value
    [of "''#abc ''" _ _ _ _ "''#abcf''", THEN conjunct2, THEN conjunct2, THEN conjunct2,
      THEN conjunct2, THEN conjunct2, THEN conjunct1, rule_format]
  have diff: "normalizeColorKey ''#abc '' \<noteq> normalizeColorKey ''#abcf''"
    using len by (rule counted)
  define p1 where "p1 = LiteralOccur ''#aBc'' ''a.css'' \<lparr>r_line = 1, r_startCol = 0, r_endCol = 4\<rparr>
       \<lparr>u_isDefinition = False, u_scope = None, u_property = None, u_line = 1\<rparr>"
  define p2 where "p2 = LiteralOccur ''#aaBBcc'' ''a.css'' \<lparr>r_line = 2, r_startCol = 0, r_endCol = 7\<rparr>
       \<lparr>u_isDefinition = False, u_scope = None, u_property = None, u_line = 2\<rparr>"
  have w: "map (map o_value \<circ> e_occurrences) (allEntries [[p1, p2]]) = [[''#aBc''], [''#aaBBcc'']]"
    unfolding p1_def p2_def by code_simp
  note apart = literal_entries_by_normalized_value
    [of "''#aBc''" "''a.css''" "\<lparr>r_line = 1, r_startCol = 0, r_endCol = 4\<rparr>"
      "\<lparr>u_isDefinition = False, u_scope = None, u_property = None, u_line = 1\<rparr>" "[[p1, p2]]"
      "''#aaBBcc''" "''a.css''" "\<lparr>r_line = 2, r_startCol = 0, r_endCol = 7\<rparr>"
      "\<lparr>u_isDefinition = False, u_scope = None, u_property = None, u_line = 2\<rparr>",
      folded p1_def p2_def, THEN conjunct2, THEN conjunct1, rule_format]
  have "\<exists>e1 \<in> set (allEntries [[p1, p2]]). \<exists>e2 \<in> set (allEntries [[p1, p2]]).
          e1 \<noteq> e2 \<and> p1 \<in> set (e_occurrences e1) \<and> p2 \<in> set (e_occurrences e2)"
    using short by (intro apart) simp
  show ?thesis
    unfolding o1_def [symmetric] o2_def [symmetric] p1_def [symmetric] p2_def [symmetric]
    by (intro conjI m(1) n v hex dbl short len diff w)
qed

subsection \<open>Variable table\<close>

lemma fold_addVarDef:
  "fold addVarDef ds t = map_of (map (\<lambda>d. (d_name d, d_value d)) ds) ++ t"
proof (induction ds arbitrary: t)
  case Nil
  show ?case by simp
next
  case (Cons d ds)
  have "fold addVarDef (d # ds) t = map_of (map (\<lambda>d. (d_name d, d_value d)) ds) ++ addVarDef d t"
    by (simp add: Cons)
  also have "\<dots> = map_of (map (\<lambda>d. (d_name d, d_value d)) (d # ds)) ++ t"
    by (rule ext) (auto simp: addVarDef_def map_add_def split: option.splits)
  finally show ?case .
qed

lemma fold_files_table:
  "fold (\<lambda>uri t. case readFile h uri of None \<Rightarrow> t
                  | Some text \<Rightarrow> fold addVarDef (scanVarDefinitions text) t) uris t
     = map_of (map (\<lambda>d. (d_name d, d_value d)) (allVarDefs h uris)) ++ t"
proof (induction uris arbitrary: t)
  case Nil
  show ?case by (simp add: allVarDefs_def)
next
  case (Cons uri uris)
  show ?case
    by (cases "readFile h uri")
       (simp_all add: Cons allVarDefs_def fold_addVarDef map_add_assoc)
qed

lemma buildVarTable_eq:
  "buildVarTable h uris = map_of (map (\<lambda>d. (d_name d, d_value d)) (allVarDefs h uris))"
  by (simp add: buildVarTable_def fold_files_table)

text \<open>
  Claim C4. The table of pass 1 is first-writer-wins: it maps a name to the value of the
  first definition of that name, in the order the definitions are found (file by file in
  traversal order, top to bottom in a file), and to nothing when no file defines the name;
  a definition whose name is already in the table leaves the table as it is.
\<close>

theorem var_table_first_writer_wins:
  "buildVarTable h uris = map_of (map (\<lambda>d. (d_name d, d_value d)) (allVarDefs h uris))
   \<and> (allVarDefs h uris = ds1 @ d # ds2 \<and> d_name d \<notin> d_name ` set ds1
        \<longrightarrow> buildVarTable h uris (d_name d) = Some (d_value d))
   \<and> (name \<notin> d_name ` set (allVarDefs h uris) \<longrightarrow> buildVarTable h uris name = None)
   \<and> (t (d_name d') \<noteq> None \<longrightarrow> addVarDef d' t = t)"
proof -
  have first: "buildVarTable h uris (d_name d) = Some (d_value d)"
    if "allVarDefs h uris = ds1 @ d # ds2" "d_name d \<notin> d_name ` set ds1"
  proof -
    from that(2) have "map_of (map (\<lambda>d. (d_name d, d_value d)) ds1) (d_name d) = None"
      by (simp add: map_of_eq_None_iff image_comp comp_def)
    with that(1) show ?thesis
      by (simp add: buildVarTable_eq map_add_def)
  qed
  have none: "buildVarTable h uris name = None" if "name \<notin> d_name ` set (allVarDefs h uris)"
    using that by (simp add: buildVarTable_eq map_of_eq_None_iff image_comp comp_def)
  from first none buildVarTable_eq [of h uris] show ?thesis
    by (simp add: addVarDef_def)
qed

theorem var_table_first_writer_wins_witness:
  "allVarDefs vars_host [''/w/a.css'', ''/w/b.css'']
     = [] @ \<lparr>d_name = ''--border'', d_value = ''#aabbcc''\<rparr>
          # [\<lparr>d_name = ''--border'', d_value = ''#000''\<rparr>, \<lparr>d_name = ''--bg'', d_value = ''rgb(0, 0, 0)''\<rparr>]
   \<and> buildVarTable vars_host [''/w/a.css'', ''/w/b.css''] ''--border'' = Some ''#aabbcc''
   \<and> buildVarTable vars_host [''/w/a.css'', ''/w/b.css''] ''--bg'' = Some ''rgb(0, 0, 0)''
   \<and> buildVarTable vars_host [''/w/a.css'', ''/w/b.css''] ''--undefined-token'' = None
   \<and> addVarDef \<lparr>d_name = ''--border'', d_value = ''#000''\<rparr> [''--border'' \<mapsto> ''#aabbcc'']
        = [''--border'' \<mapsto> ''#aabbcc'']"
proof -
  have defs: "allVarDefs vars_host [''/w/a.css'', ''/w/b.css'']
     = [] @ \<lparr>d_name = ''--border'', d_value = ''#aabbcc''\<rparr>
          # [\<lparr>d_name = ''--border'', d_value = ''#000''\<rparr>, \<lparr>d_name = ''--bg'', d_value = ''rgb(0, 0, 0)''\<rparr>]"
    by code_simp
  have nin: "d_name \<lparr>d_name = ''--border'', d_value = ''#aabbcc''\<rparr> \<notin> d_name ` set []" by simp
  have un: "''--undefined-token'' \<notin> d_name ` set (allVarDefs vars_host [''/w/a.css'', ''/w/b.css''])"
    unfolding defs by simp
  have "[''--border'' \<mapsto> ''#aabbcc''] (d_name \<lparr>d_name = ''--border'', d_value = ''#000''\<rparr>) \<noteq> None"
    by simp
  with var_table_first_writer_wins
    [of vars_host "[''/w/a.css'', ''/w/b.css'']" "[]" "\<lparr>d_name = ''--border'', d_value = ''#aabbcc''\<rparr>"
      "[\<lparr>d_name = ''--border'', d_value = ''#000''\<rparr>, \<lparr>d_name = ''--bg'', d_value = ''rgb(0, 0, 0)''\<rparr>]"
      "''--undefined-token''" "[''--border'' \<mapsto> ''#aabbcc'']" "\<lparr>d_name = ''--border'', d_value = ''#000''\<rparr>"]
    defs nin un
  show ?thesis by (simp add: map_of_Cons_code)
qed

subsection \<open>Matches\<close>

lemma rx_at_SomeD:
  assumes "rx_at r idx prev rest = Some m"
  shows "m_index m = idx" and "m_text m = take (length (m_text m)) rest"
    and "length (m_text m) \<le> length rest"
  using assms by (auto simp: rx_at_def split: option.splits)

lemma rx_all_unfold_None:
  "rx_at r idx prev rest = None \<Longrightarrow>
     rx_all r idx prev rest = (case rest of [] \<Rightarrow> [] | c # cs \<Rightarrow> rx_all r (Suc idx) (Some c) cs)"
  by (subst rx_all.simps) simp

lemma rx_all_unfold_empty:
  "rx_at r idx prev rest = Some m \<Longrightarrow> m_text m = [] \<Longrightarrow>
     rx_all r idx prev rest = m # (case rest of [] \<Rightarrow> [] | c # cs \<Rightarrow> rx_all r (Suc idx) (Some c) cs)"
  by (subst rx_all.simps) simp

lemma rx_all_unfold_match:
  "rx_at r idx prev rest = Some m \<Longrightarrow> m_text m \<noteq> [] \<Longrightarrow>
     rx_all r idx prev rest
       = m # rx_all r (idx + length (m_text m)) (Some (last (m_text m))) (drop (length (m_text m)) rest)"
  by (subst rx_all.simps) simp

lemma rx_all_bounds:
  "m \<in> set (rx_all r idx prev rest) \<Longrightarrow>
     idx \<le> m_index m \<and> m_index m + length (m_text m) \<le> idx + length rest
     \<and> m_text m = take (length (m_text m)) (drop (m_index m - idx) rest)"
proof (induction r idx prev rest rule: rx_all.induct)
  case (1 r idx prev rest)
  show ?case
  proof (cases "rx_at r idx prev rest")
    case None
    show ?thesis
    proof (cases rest)
      case Nil
      with None "1.prems" show ?thesis by (simp add: rx_all_unfold_None)
    next
      case (Cons c cs)
      with None "1.prems" have "m \<in> set (rx_all r (Suc idx) (Some c) cs)"
        by (simp add: rx_all_unfold_None)
      from "1.IH"(1) [OF None Cons this]
      have a: "Suc idx \<le> m_index m" and b: "m_index m + length (m_text m) \<le> Suc idx + length cs"
        and c: "m_text m = take (length (m_text m)) (drop (m_index m - Suc idx) cs)"
        by auto
      from a have "m_index m - idx = Suc (m_index m - Suc idx)" by simp
      with c have "m_text m = take (length (m_text m)) (drop (m_index m - idx) (c # cs))" by simp
      with a b Cons show ?thesis by simp
    qed
  next
    case (Some m')
    note at = rx_at_SomeD [OF Some]
    show ?thesis
    proof (cases "m_text m' = []")
      case True
      show ?thesis
      proof (cases "m = m'")
        case True
        with at \<open>m_text m' = []\<close> show ?thesis by simp
      next
        case False
        show ?thesis
        proof (cases rest)
          case Nil
          with Some True False "1.prems" show ?thesis by (simp add: rx_all_unfold_empty)
        next
          case (Cons c cs)
          with Some True False "1.prems" have "m \<in> set (rx_all r (Suc idx) (Some c) cs)"
            by (simp add: rx_all_unfold_empty)
          from "1.IH"(2) [OF Some True Cons this]
          have a: "Suc idx \<le> m_index m" and b: "m_index m + length (m_text m) \<le> Suc idx + length cs"
            and c: "m_text m = take (length (m_text m)) (drop (m_index m - Suc idx) cs)"
            by auto
          from a have "m_index m - idx = Suc (m_index m - Suc idx)" by simp
          with c have "m_text m = take (length (m_text m)) (drop (m_index m - idx) (c # cs))" by simp
          with a b Cons show ?thesis by simp
        qed
      qed
    next
      case False
      show ?thesis
      proof (cases "m = m'")
        case True
        with at show ?thesis by simp
      next
        case ne: False
        with Some False "1.prems"
        have "m \<in> set (rx_all r (idx + length (m_text m')) (Some (last (m_text m')))
                  (drop (length (m_text m')) rest))"
          by (simp add: rx_all_unfold_match)
        from "1.IH"(3) [OF Some False this] at(3)
        have a: "idx + length (m_text m') \<le> m_index m"
          and b: "m_index m + length (m_text m) \<le> idx + length rest"
          and c: "m_text m = take (length (m_text m))
                    (drop (m_index m - (idx + length (m_text m'))) (drop (length (m_text m')) rest))"
          by auto
        from a have "m_index m - (idx + length (m_text m')) + length (m_text m') = m_index m - idx"
          by simp
        with c have "m_text m = take (length (m_text m)) (drop (m_index m - idx) rest)"
          by (simp add: add.commute)
        with a b show ?thesis by simp
      qed
    qed
  qed
qed

lemma rx_all_sorted:
  "sorted_wrt (\<lambda>a b. m_index a + length (m_text a) \<le> m_index b) (rx_all r idx prev rest)"
proof (induction r idx prev rest rule: rx_all.induct)
  case (1 r idx prev rest)
  show ?case
  proof (cases "rx_at r idx prev rest")
    case None
    show ?thesis
    proof (cases rest)
      case Nil
      with None show ?thesis by (simp add: rx_all_unfold_None)
    next
      case (Cons c cs)
      with None "1.IH"(1) [OF None Cons] show ?thesis by (simp add: rx_all_unfold_None)
    qed
  next
    case (Some m')
    note at = rx_at_SomeD [OF Some]
    show ?thesis
    proof (cases "m_text m' = []")
      case True
      show ?thesis
      proof (cases rest)
        case Nil
        with Some True show ?thesis by (simp add: rx_all_unfold_empty)
      next
        case (Cons c cs)
        have "m_index m' + length (m_text m') \<le> m_index b"
          if "b \<in> set (rx_all r (Suc idx) (Some c) cs)" for b
          using rx_all_bounds [OF that] at True by simp
        with Some True Cons "1.IH"(2) [OF Some True Cons] show ?thesis
          by (simp add: rx_all_unfold_empty)
      qed
    next
      case False
      have "m_index m' + length (m_text m') \<le> m_index b"
        if "b \<in> set (rx_all r (idx + length (m_text m')) (Some (last (m_text m')))
                  (drop (length (m_text m')) rest))" for b
        using rx_all_bounds [OF that] at by simp
      with Some False "1.IH"(3) [OF Some False] show ?thesis
        by (simp add: rx_all_unfold_match)
    qed
  qed
qed

lemma rx_all_length: "length (rx_all r idx prev rest) \<le> Suc (length rest)"
proof (induction r idx prev rest rule: rx_all.induct)
  case (1 r idx prev rest)
  show ?case
  proof (cases "rx_at r idx prev rest")
    case None
    show ?thesis
    proof (cases rest)
      case Nil
      with None show ?thesis by (simp add: rx_all_unfold_None)
    next
      case (Cons c cs)
      with None "1.IH"(1) [OF None Cons] show ?thesis by (simp add: rx_all_unfold_None)
    qed
  next
    case (Some m')
    note at = rx_at_SomeD [OF Some]
    show ?thesis
    proof (cases "m_text m' = []")
      case True
      show ?thesis
      proof (cases rest)
        case Nil
        with Some True show ?thesis by (simp add: rx_all_unfold_empty)
      next
        case (Cons c cs)
        with Some True "1.IH"(2) [OF Some True Cons] show ?thesis
          by (simp add: rx_all_unfold_empty)
      qed
    next
      case False
      then have n: "Suc 0 \<le> length (m_text m')" by (cases "m_text m'") simp_all
      from "1.IH"(3) [OF Some False]
      have "length (rx_all r (idx + length (m_text m')) (Some (last (m_text m')))
              (drop (length (m_text m')) rest)) \<le> Suc (length rest - length (m_text m'))"
        by simp
      also have "\<dots> \<le> length rest" using n at(3) by arith
      finally show ?thesis
        unfolding rx_all_unfold_match [OF Some False] by simp
    qed
  qed
qed

lemma matchAll_bounds:
  "m \<in> set (matchAll r text) \<Longrightarrow>
     m_index m + length (m_text m) \<le> length text
     \<and> m_text m = take (length (m_text m)) (drop (m_index m) text)"
  using rx_all_bounds [of m r 0 None "text"] by (simp add: matchAll_def)

lemma matchAll_sorted:
  "sorted_wrt (\<lambda>a b. m_index a + length (m_text a) \<le> m_index b) (matchAll r text)"
  by (simp add: matchAll_def rx_all_sorted)

lemma matchAll_length: "length (matchAll r text) \<le> Suc (length text)"
  by (simp add: matchAll_def rx_all_length)

lemma indexOf_from_found:
  "indexOf_from s sub i = r \<Longrightarrow> 0 \<le> r \<Longrightarrow>
     int i \<le> r \<and> take (length sub) (drop (nat r - i) s) = sub \<and> nat r - i + length sub \<le> length s"
proof (induction s sub i rule: indexOf_from.induct)
  case (1 sub i)
  then show ?case by (auto split: if_splits)
next
  case (2 c cs sub i)
  show ?case
  proof (cases "startsWith (c # cs) sub")
    case True
    with "2.prems" have r: "r = int i" by simp
    from True have t: "take (length sub) (c # cs) = sub" by (simp add: startsWith_def)
    have "length (take (length sub) (c # cs)) \<le> length (c # cs)" by simp
    with t have "length sub \<le> length (c # cs)" by simp
    with r t show ?thesis by simp
  next
    case False
    with "2.prems" have "indexOf_from cs sub (Suc i) = r" by simp
    from "2.IH" [OF False this "2.prems"(2)] show ?thesis
      by (auto simp: Suc_diff_le drop_Cons' nat_le_iff)
  qed
qed

lemma indexOf_found:
  "0 \<le> indexOf s sub \<Longrightarrow>
     take (length sub) (drop (nat (indexOf s sub)) s) = sub \<and> nat (indexOf s sub) + length sub \<le> length s"
  using indexOf_from_found [of s sub 0 "indexOf s sub"] by (simp add: indexOf_def)

lemma shrinksI: "(\<And>caps prev rest res. k caps prev rest = Some res \<Longrightarrow> length (snd res) \<le> length rest) \<Longrightarrow> shrinks k"
  by (auto simp: shrinks_def)

lemma shrinksD: "shrinks k \<Longrightarrow> k caps prev rest = Some res \<Longrightarrow> length (snd res) \<le> length rest"
  unfolding shrinks_def by blast

lemma shrinks_done: "shrinks rx_done"
  by (auto simp: shrinks_def rx_done_def)

lemma rx_shrinks_lit: "rx_shrinks (rx_lit s)"
  unfolding rx_shrinks_def
proof (intro allI impI shrinksI)
  fix k caps prev rest res
  assume k: "shrinks k" and r: "rx_lit s k caps prev rest = Some res"
  then have "k caps (Some (last s)) (drop (length s) rest) = Some res"
    by (auto simp: rx_lit_def split: if_splits)
  from shrinksD [OF k this] show "length (snd res) \<le> length rest" by simp
qed

lemma rx_shrinks_lit_ci: "rx_shrinks (rx_lit_ci s)"
  unfolding rx_shrinks_def
proof (intro allI impI shrinksI)
  fix k caps prev rest res
  assume k: "shrinks k" and r: "rx_lit_ci s k caps prev rest = Some res"
  then have "k caps (Some (rest ! (length s - 1))) (drop (length s) rest) = Some res"
    by (auto simp: rx_lit_ci_def split: if_splits)
  from shrinksD [OF k this] show "length (snd res) \<le> length rest" by simp
qed

lemma rx_shrinks_one: "rx_shrinks (rx_one ok)"
  unfolding rx_shrinks_def
proof (intro allI impI shrinksI)
  fix k caps prev rest res
  assume k: "shrinks k" and r: "rx_one ok k caps prev rest = Some res"
  then obtain c cs where "rest = c # cs" "k caps (Some c) cs = Some res"
    by (auto simp: rx_one_def split: list.splits if_splits)
  with shrinksD [OF k] show "length (snd res) \<le> length rest" by fastforce
qed

lemma rx_star_shrinks:
  "shrinks k \<Longrightarrow> rx_star ok k caps prev rest = Some res \<Longrightarrow> length (snd res) \<le> length rest"
proof (induction rest arbitrary: prev)
  case Nil
  then show ?case by (auto dest: shrinksD)
next
  case (Cons c cs)
  show ?case
  proof (cases "ok c \<and> rx_star ok k caps (Some c) cs \<noteq> None")
    case True
    with Cons.prems have "rx_star ok k caps (Some c) cs = Some res" by auto
    from Cons.IH [OF Cons.prems(1) this] show ?thesis by simp
  next
    case False
    with Cons.prems have "k caps prev (c # cs) = Some res" by (auto split: if_splits option.splits)
    from shrinksD [OF Cons.prems(1) this] show ?thesis .
  qed
qed

lemma rx_shrinks_star: "rx_shrinks (rx_star ok)"
  unfolding rx_shrinks_def by (intro allI impI shrinksI) (rule rx_star_shrinks)

lemma rx_lazy_star_shrinks:
  "shrinks k \<Longrightarrow> rx_lazy_star ok k caps prev rest = Some res \<Longrightarrow> length (snd res) \<le> length rest"
proof (induction rest arbitrary: prev)
  case Nil
  then show ?case by (auto dest: shrinksD)
next
  case (Cons c cs)
  show ?case
  proof (cases "k caps prev (c # cs)")
    case None
    with Cons.prems have "rx_lazy_star ok k caps (Some c) cs = Some res" by (auto split: if_splits)
    from Cons.IH [OF Cons.prems(1) this] show ?thesis by simp
  next
    case (Some r)
    with Cons.prems have "k caps prev (c # cs) = Some res" by simp
    from shrinksD [OF Cons.prems(1) this] show ?thesis .
  qed
qed

lemma rx_shrinks_lazy_star: "rx_shrinks (rx_lazy_star ok)"
  unfolding rx_shrinks_def by (intro allI impI shrinksI) (rule rx_lazy_star_shrinks)

lemma rx_upto_shrinks:
  "shrinks k \<Longrightarrow> rx_upto n ok k caps prev rest = Some res \<Longrightarrow> length (snd res) \<le> length rest"
proof (induction n ok k caps prev rest rule: rx_upto.induct)
  case (1 ok k caps prev rest)
  then show ?case by (auto dest: shrinksD)
next
  case (2 n ok k caps prev)
  then show ?case by (auto dest: shrinksD)
next
  case (3 n ok k caps prev c cs)
  show ?case
  proof (cases "ok c \<and> rx_upto n ok k caps (Some c) cs \<noteq> None")
    case True
    with "3.prems" have "rx_upto n ok k caps (Some c) cs = Some res" by auto
    with "3.IH" "3.prems"(1) True show ?thesis by fastforce
  next
    case False
    with "3.prems" have "k caps prev (c # cs) = Some res" by (auto split: if_splits option.splits)
    from shrinksD [OF "3.prems"(1) this] show ?thesis .
  qed
qed

lemma rx_shrinks_upto: "rx_shrinks (rx_upto n ok)"
  unfolding rx_shrinks_def by (intro allI impI shrinksI) (rule rx_upto_shrinks)

lemma rx_shrinks_comp: "rx_shrinks a \<Longrightarrow> rx_shrinks b \<Longrightarrow> rx_shrinks (a \<circ> b)"
  by (simp add: rx_shrinks_def)

lemma rx_shrinks_plus: "rx_shrinks (rx_plus ok)"
  using rx_shrinks_one [of ok] rx_shrinks_star [of ok]
  by (simp add: rx_shrinks_def rx_plus_def)

lemma rx_shrinks_exactly: "rx_shrinks (rx_exactly n ok)"
  using rx_shrinks_one [of ok] by (induction n) (simp_all add: rx_shrinks_def)

lemma rx_shrinks_between: "rx_shrinks (rx_between lo hi ok)"
  using rx_shrinks_exactly [of lo ok] rx_shrinks_upto [of "hi - lo" ok]
  by (simp add: rx_shrinks_def rx_between_def)

lemma rx_shrinks_alt: "rx_shrinks a \<Longrightarrow> rx_shrinks b \<Longrightarrow> rx_shrinks (rx_alt a b)"
  unfolding rx_shrinks_def
proof (intro allI impI shrinksI)
  fix k caps prev rest res
  assume a: "\<forall>k. shrinks k \<longrightarrow> shrinks (a k)" and b: "\<forall>k. shrinks k \<longrightarrow> shrinks (b k)"
    and k: "shrinks k" and r: "rx_alt a b k caps prev rest = Some res"
  from r have "a k caps prev rest = Some res \<or> b k caps prev rest = Some res"
    by (auto simp: rx_alt_def split: option.splits)
  with a b k show "length (snd res) \<le> length rest" by (auto dest: shrinksD)
qed

lemma rx_shrinks_opt: "rx_shrinks a \<Longrightarrow> rx_shrinks (rx_opt a)"
  unfolding rx_shrinks_def
proof (intro allI impI shrinksI)
  fix k caps prev rest res
  assume a: "\<forall>k. shrinks k \<longrightarrow> shrinks (a k)"
    and k: "shrinks k" and r: "rx_opt a k caps prev rest = Some res"
  from r have "a k caps prev rest = Some res \<or> k caps prev rest = Some res"
    by (auto simp: rx_opt_def split: option.splits)
  with a k show "length (snd res) \<le> length rest" by (auto dest: shrinksD)
qed

lemma rx_shrinks_cap: "rx_shrinks a \<Longrightarrow> rx_shrinks (rx_cap a)"
  unfolding rx_shrinks_def
proof (intro allI impI shrinksI)
  fix k caps prev rest res
  assume a: "\<forall>k. shrinks k \<longrightarrow> shrinks (a k)"
    and k: "shrinks k" and r: "rx_cap a k caps prev rest = Some res"
  have "shrinks (\<lambda>caps' prev' rest'. k (caps' @ [take (length rest - length rest') rest]) prev' rest')"
    using k by (auto simp: shrinks_def)
  with a r show "length (snd res) \<le> length rest"
    unfolding rx_cap_def by (blast dest: shrinksD)
qed

lemma rx_shrinks_wordb: "rx_shrinks rx_wordb"
  unfolding rx_shrinks_def
proof (intro allI impI shrinksI)
  fix k caps prev rest res
  assume k: "shrinks k" and r: "rx_wordb k caps prev rest = Some res"
  then have "k caps prev rest = Some res" by (auto simp: rx_wordb_def split: if_splits)
  from shrinksD [OF k this] show "length (snd res) \<le> length rest" .
qed

lemma rx_shrinks_eol: "rx_shrinks rx_eol"
  unfolding rx_shrinks_def
proof (intro allI impI shrinksI)
  fix k caps prev rest res
  assume k: "shrinks k" and r: "rx_eol k caps prev rest = Some res"
  then have "k caps prev rest = Some res" by (auto simp: rx_eol_def split: if_splits)
  from shrinksD [OF k this] show "length (snd res) \<le> length rest" .
qed

lemmas rx_shrinks_intros =
  rx_shrinks_comp rx_shrinks_lit rx_shrinks_lit_ci rx_shrinks_one rx_shrinks_star
  rx_shrinks_lazy_star rx_shrinks_plus rx_shrinks_upto rx_shrinks_exactly rx_shrinks_between
  rx_shrinks_alt rx_shrinks_opt rx_shrinks_cap rx_shrinks_wordb rx_shrinks_eol

lemma rx_at_lit_nonempty:
  assumes "rx_shrinks r" and "s \<noteq> []" and "rx_at (rx_lit s \<circ> r) idx prev rest = Some m"
  shows "m_text m \<noteq> []"
proof -
  from assms(3) obtain caps rest' where
    res: "rx_lit s (r rx_done) [] prev rest = Some (caps, rest')"
    and m: "m_text m = take (length rest - length rest') rest"
    by (auto simp: rx_at_def split: option.splits)
  from res have st: "startsWith rest s"
    and k: "r rx_done [] (Some (last s)) (drop (length s) rest) = Some (caps, rest')"
    by (auto simp: rx_lit_def split: if_splits)
  from assms(1) shrinks_done have "shrinks (r rx_done)" by (simp add: rx_shrinks_def)
  from shrinksD [OF this k] have le: "length rest' \<le> length rest - length s" by simp
  have "length (take (length s) rest) \<le> length rest" by simp
  with st have "length s \<le> length rest" by (simp add: startsWith_def)
  with le assms(2) have "0 < length rest - length rest'"
    by (cases s) auto
  with m show ?thesis by auto
qed

lemma rx_at_wordb_lit_ci_nonempty:
  assumes "rx_shrinks r" and "s \<noteq> []" and "rx_at (rx_wordb \<circ> (rx_lit_ci s \<circ> r)) idx prev rest = Some m"
  shows "m_text m \<noteq> []"
proof -
  from assms(3) obtain caps rest' where
    res: "rx_wordb (rx_lit_ci s (r rx_done)) [] prev rest = Some (caps, rest')"
    and m: "m_text m = take (length rest - length rest') rest"
    by (auto simp: rx_at_def split: option.splits)
  from res have "rx_lit_ci s (r rx_done) [] prev rest = Some (caps, rest')"
    by (auto simp: rx_wordb_def split: if_splits)
  then have len: "length s \<le> length rest"
    and k: "r rx_done [] (Some (rest ! (length s - 1))) (drop (length s) rest) = Some (caps, rest')"
    by (auto simp: rx_lit_ci_def split: if_splits)
  from assms(1) shrinks_done have "shrinks (r rx_done)" by (simp add: rx_shrinks_def)
  from shrinksD [OF this k] have le: "length rest' \<le> length rest - length s" by simp
  with len assms(2) have "0 < length rest - length rest'"
    by (cases s) auto
  with m show ?thesis by auto
qed

lemma in_rx_all_at:
  "m \<in> set (rx_all r idx prev rest) \<Longrightarrow> \<exists>idx' prev' rest'. rx_at r idx' prev' rest' = Some m"
proof (induction r idx prev rest rule: rx_all.induct)
  case (1 r idx prev rest)
  show ?case
  proof (cases "rx_at r idx prev rest")
    case None
    with "1.prems" "1.IH"(1) [OF None] show ?thesis
      by (cases rest) (auto simp: rx_all_unfold_None)
  next
    case (Some m')
    show ?thesis
    proof (cases "m = m'")
      case True
      with Some show ?thesis by blast
    next
      case False
      show ?thesis
      proof (cases "m_text m' = []")
        case True
        with Some False "1.prems" "1.IH"(2) [OF Some True] show ?thesis
          by (cases rest) (auto simp: rx_all_unfold_empty)
      next
        case ne: False
        with Some False "1.prems" "1.IH"(3) [OF Some ne] show ?thesis
          by (auto simp: rx_all_unfold_match)
      qed
    qed
  qed
qed

lemma hex_match_nonempty: "m \<in> set (matchAll hexRegex text) \<Longrightarrow> m_text m \<noteq> []"
proof -
  assume "m \<in> set (matchAll hexRegex text)"
  then obtain idx prev rest where "rx_at hexRegex idx prev rest = Some m"
    unfolding matchAll_def by (blast dest: in_rx_all_at)
  then show ?thesis
    unfolding hexRegex_def hexToken_def comp_assoc
    by (rule rx_at_lit_nonempty [rotated 2]) (auto intro!: rx_shrinks_intros)
qed

lemma rgb_match_nonempty: "m \<in> set (matchAll rgbRegex text) \<Longrightarrow> m_text m \<noteq> []"
proof -
  assume "m \<in> set (matchAll rgbRegex text)"
  then obtain idx prev rest where "rx_at rgbRegex idx prev rest = Some m"
    unfolding matchAll_def by (blast dest: in_rx_all_at)
  then show ?thesis
    unfolding rgbRegex_def alphaValue_def comp_assoc
    by (rule rx_at_wordb_lit_ci_nonempty [rotated 2]) (auto intro!: rx_shrinks_intros)
qed

lemma hsl_match_nonempty: "m \<in> set (matchAll hslRegex text) \<Longrightarrow> m_text m \<noteq> []"
proof -
  assume "m \<in> set (matchAll hslRegex text)"
  then obtain idx prev rest where "rx_at hslRegex idx prev rest = Some m"
    unfolding matchAll_def by (blast dest: in_rx_all_at)
  then show ?thesis
    unfolding hslRegex_def alphaValue_def comp_assoc
    by (rule rx_at_wordb_lit_ci_nonempty [rotated 2]) (auto intro!: rx_shrinks_intros)
qed

subsection \<open>Totality of the position functions\<close>

lemma offsetToLine0_loop_total:
  assumes "length ls \<le> 2 ^ 30" and "0 \<le> lo" and "lo \<le> hi + 1" and "hi < int (length ls)"
  shows "\<exists>r. offsetToLine0_loop ls n lo hi ans = Some r \<and> (r = ans \<or> (0 \<le> r \<and> r < int (length ls)))"
  using assms
proof (induction "nat (hi - lo + 1)" arbitrary: lo hi ans rule: less_induct)
  case less
  show ?case
  proof (cases "lo \<le> hi")
    case False
    then show ?thesis by (subst offsetToLine0_loop.simps) simp
  next
    case True
    define mid where "mid = (lo + hi) div 2"
    have sum: "0 \<le> lo + hi" "lo + hi < 2 ^ 31"
      using True less.prems by auto
    have mid: "shiftRight1 (lo + hi) = mid"
      using sum by (simp add: shiftRight1_small mid_def)
    have bounds: "lo \<le> mid" "mid \<le> hi" using True by (auto simp: mid_def)
    then have idx: "js_index ls mid = Some (ls ! nat mid)"
      using less.prems by (simp add: js_index_def)
    show ?thesis
    proof (cases "ls ! nat mid \<le> n")
      case le: True
      have step: "offsetToLine0_loop ls n lo hi ans = offsetToLine0_loop ls n (mid + 1) hi mid"
        using True le by (subst offsetToLine0_loop.simps) (simp add: mid idx)
      have "\<exists>r. offsetToLine0_loop ls n (mid + 1) hi mid = Some r
                \<and> (r = mid \<or> (0 \<le> r \<and> r < int (length ls)))"
        using less.prems bounds by (intro less.hyps) auto
      with step bounds less.prems show ?thesis by auto
    next
      case gt: False
      have step: "offsetToLine0_loop ls n lo hi ans = offsetToLine0_loop ls n lo (mid - 1) ans"
        using True gt by (subst offsetToLine0_loop.simps) (simp add: mid idx)
      have "\<exists>r. offsetToLine0_loop ls n lo (mid - 1) ans = Some r
                \<and> (r = ans \<or> (0 \<le> r \<and> r < int (length ls)))"
        using less.prems bounds by (intro less.hyps) auto
      with step show ?thesis by simp
    qed
  qed
qed

lemma offsetToLine0_total:
  "length ls \<le> 2 ^ 30 \<Longrightarrow> \<exists>r. offsetToLine0 ls n = Some r"
  using offsetToLine0_loop_total [of ls 0 "int (length ls) - 1" n 0]
  by (auto simp: offsetToLine0_def)

lemma offsetToCol_total:
  "length ls \<le> 2 ^ 30 \<Longrightarrow> \<exists>r. offsetToCol ls n = Some r"
  using offsetToLine0_total [of ls n] by (auto simp: offsetToCol_def)

lemma locate_total:
  assumes "length ls \<le> 2 ^ 30"
  shows "\<exists>rng usage. locate cx text ls file s e d = Some (rng, usage) \<and> u_isDefinition usage = d"
proof -
  from offsetToLine0_total [OF assms] obtain line0 where "offsetToLine0 ls s = Some line0" by blast
  moreover from offsetToCol_total [OF assms] obtain col where "offsetToCol ls s = Some col" by blast
  moreover from offsetToCol_total [OF assms] obtain endCol where "offsetToCol ls e = Some endCol" by blast
  ultimately show ?thesis by (simp add: locate_def Let_def)
qed

lemma locate_isDefinition:
  "locate cx text ls file s e d = Some (rng, usage) \<Longrightarrow> u_isDefinition usage = d"
  by (auto simp: locate_def Let_def split: Option.bind_splits)

subsection \<open>The search of \<open>isExcluded\<close>\<close>

lemma isExcluded_loop_eq:
  assumes "length spans \<le> 2 ^ 30" and "0 \<le> lo" and "lo \<le> hi + 1" and "hi < int (length spans)"
  shows "isExcluded_loop spans start lo hi idx = offsetToLine0_loop (map s_start spans) start lo hi idx"
  using assms
proof (induction "nat (hi - lo + 1)" arbitrary: lo hi idx rule: less_induct)
  case less
  show ?case
  proof (cases "lo \<le> hi")
    case False
    then show ?thesis
      by (subst isExcluded_loop.simps, subst offsetToLine0_loop.simps) simp
  next
    case True
    define mid where "mid = (lo + hi) div 2"
    have sum: "0 \<le> lo + hi" "lo + hi < 2 ^ 31"
      using True less.prems by auto
    have mid: "shiftRight1 (lo + hi) = mid"
      using sum by (simp add: shiftRight1_small mid_def)
    have bounds: "lo \<le> mid" "mid \<le> hi" using True by (auto simp: mid_def)
    then have i1: "js_index spans mid = Some (spans ! nat mid)"
      and i2: "js_index (map s_start spans) mid = Some (s_start (spans ! nat mid))"
      using less.prems by (simp_all add: js_index_def)
    show ?thesis
    proof (cases "s_start (spans ! nat mid) \<le> start")
      case le: True
      have "isExcluded_loop spans start lo hi idx = isExcluded_loop spans start (mid + 1) hi mid"
        using True le by (subst isExcluded_loop.simps) (simp add: mid i1)
      moreover have "offsetToLine0_loop (map s_start spans) start lo hi idx
                       = offsetToLine0_loop (map s_start spans) start (mid + 1) hi mid"
        using True le by (subst offsetToLine0_loop.simps) (simp add: mid i2)
      moreover have "isExcluded_loop spans start (mid + 1) hi mid
                       = offsetToLine0_loop (map s_start spans) start (mid + 1) hi mid"
        using less.prems bounds by (intro less.hyps) auto
      ultimately show ?thesis by simp
    next
      case gt: False
      have "isExcluded_loop spans start lo hi idx = isExcluded_loop spans start lo (mid - 1) idx"
        using True gt by (subst isExcluded_loop.simps) (simp add: mid i1)
      moreover have "offsetToLine0_loop (map s_start spans) start lo hi idx
                       = offsetToLine0_loop (map s_start spans) start lo (mid - 1) idx"
        using True gt by (subst offsetToLine0_loop.simps) (simp add: mid i2)
      moreover have "isExcluded_loop spans start lo (mid - 1) idx
                       = offsetToLine0_loop (map s_start spans) start lo (mid - 1) idx"
        using less.prems bounds by (intro less.hyps) auto
      ultimately show ?thesis by simp
    qed
  qed
qed

lemma isExcluded_total:
  assumes "length spans \<le> 2 ^ 30"
  shows "\<exists>b. isExcluded spans start end' = Some b"
proof -
  have eq: "isExcluded_loop spans start 0 (int (length spans) - 1) (- 1)
              = offsetToLine0_loop (map s_start spans) start 0 (int (length spans) - 1) (- 1)"
    using assms by (intro isExcluded_loop_eq) auto
  from offsetToLine0_loop_total [of "map s_start spans" 0 "int (length spans) - 1" start "- 1"] assms
  obtain r where "offsetToLine0_loop (map s_start spans) start 0 (int (length spans) - 1) (- 1) = Some r"
    "r = - 1 \<or> (0 \<le> r \<and> r < int (length spans))" by auto
  with eq show ?thesis by (auto simp: isExcluded_def js_index_def)
qed

text \<open>disjoint sorted spans: a range inside a span is excluded\<close>

lemma isExcluded_contained:
  assumes len: "length spans \<le> 2 ^ 30"
    and dis: "sorted_wrt (\<lambda>a b. s_end a \<le> s_start b) spans"
    and ne: "\<forall>sp \<in> set spans. s_start sp < s_end sp"
    and sp: "sp \<in> set spans" and inside: "s_start sp \<le> start" "end' \<le> s_end sp" and nonempty: "start < end'"
  shows "isExcluded spans start end' = Some True"
proof -
  have sorted: "sorted (map s_start spans)"
    unfolding sorted_map
  proof (rule sorted_wrt_mono_rel [OF _ dis])
    fix a b assume "a \<in> set spans" "b \<in> set spans" "s_end a \<le> s_start b"
    with ne show "s_start a \<le> s_start b" by fastforce
  qed
  from sp obtain k where k: "k < length spans" "spans ! k = sp" by (auto simp: in_set_conv_nth)
  have ex: "\<exists>j < length (map s_start spans). map s_start spans ! j \<le> start"
    using k inside by auto
  have eq: "isExcluded_loop spans start 0 (int (length spans) - 1) (- 1)
              = offsetToLine0_loop (map s_start spans) start 0 (int (length spans) - 1) (- 1)"
    using len by (intro isExcluded_loop_eq) auto
  from offsetToLine0_loop_spec [of "map s_start spans" 0 "int (length spans) - 1" start "- 1"] sorted len ex
  obtain r where r: "offsetToLine0_loop (map s_start spans) start 0 (int (length spans) - 1) (- 1) = Some r"
    "0 \<le> r" "r < int (length spans)" "s_start (spans ! nat r) \<le> start"
    "\<forall>j < length spans. s_start (spans ! j) \<le> start \<longrightarrow> int j \<le> r"
    by (auto split: if_splits)
  from r(5) k inside have kr: "k \<le> nat r" by auto
  have "nat r = k"
  proof (rule ccontr)
    assume "nat r \<noteq> k"
    with kr have lt: "k < nat r" by simp
    with dis r(2,3) have "s_end (spans ! k) \<le> s_start (spans ! nat r)"
      by (auto simp: sorted_wrt_iff_nth_less)
    with r(4) k inside nonempty show False by simp
  qed
  with k r inside nonempty eq show ?thesis
    by (auto simp: isExcluded_def js_index_def)
qed

subsection \<open>The passes of the scanner\<close>

lemma defPass_total:
  assumes "length ls \<le> 2 ^ 30"
  shows "\<exists>occs spans. defPass cx text ls file ms = Some (occs, spans) \<and> length spans \<le> length ms
           \<and> (\<forall>occ \<in> set occs. \<not> isReference occ \<and> \<not> isLiteral occ)"
proof (induction ms)
  case Nil
  show ?case by simp
next
  case (Cons m ms)
  then obtain occs spans where ih: "defPass cx text ls file ms = Some (occs, spans)"
    "length spans \<le> length ms" "\<forall>occ \<in> set occs. \<not> isReference occ \<and> \<not> isLiteral occ"
    by blast
  define v where "v = extractFirstColorToken (trim (rx_group m 2))"
  define s where "s = int (m_index m) + indexOf (m_text m) v"
  from locate_total [OF assms, of cx "text" "file" s "s + int (length v)" True]
  obtain rng usage where loc: "locate cx text ls file s (s + int (length v)) True = Some (rng, usage)"
    "u_isDefinition usage" by auto
  show ?case
  proof (cases "v = [] \<or> indexOf (m_text m) v < 0")
    case True
    with ih show ?thesis by (auto simp: Let_def v_def split: if_splits)
  next
    case False
    with ih loc show ?thesis
      by (auto simp: Let_def v_def [symmetric] s_def [symmetric] isReference_def isLiteral_def o_kind_def)
  qed
qed

lemma defPass_spans:
  assumes "defPass cx text ls file ms = Some (occs, spans)"
    and "sorted_wrt (\<lambda>a b. m_index a + length (m_text a) \<le> m_index b) ms"
  shows "(\<forall>sp \<in> set spans. s_start sp < s_end sp
            \<and> (\<exists>m \<in> set ms. int (m_index m) \<le> s_start sp
                    \<and> s_end sp \<le> int (m_index m) + int (length (m_text m))))
         \<and> sorted_wrt (\<lambda>a b. s_end a \<le> s_start b) spans"
  using assms
proof (induction ms arbitrary: occs spans)
  case Nil
  then show ?case by simp
next
  case (Cons m ms)
  define v where "v = extractFirstColorToken (trim (rx_group m 2))"
  define s where "s = int (m_index m) + indexOf (m_text m) v"
  from Cons.prems(2) have sorted: "sorted_wrt (\<lambda>a b. m_index a + length (m_text a) \<le> m_index b) ms"
    and first: "\<forall>b \<in> set ms. m_index m + length (m_text m) \<le> m_index b"
    by simp_all
  show ?case
  proof (cases "v = [] \<or> indexOf (m_text m) v < 0")
    case True
    with Cons.prems(1) have "defPass cx text ls file ms = Some (occs, spans)"
      by (auto simp: Let_def v_def split: if_splits)
    from Cons.IH [OF this sorted] show ?thesis by auto
  next
    case False
    with Cons.prems(1) obtain occs' spans' where rest: "defPass cx text ls file ms = Some (occs', spans')"
      and spans: "spans = \<lparr>s_start = s, s_end = s + int (length v)\<rparr> # spans'"
      by (auto simp: Let_def v_def [symmetric] s_def [symmetric] split: Option.bind_splits)
    from Cons.IH [OF rest sorted]
    have ih: "\<forall>sp \<in> set spans'. s_start sp < s_end sp
            \<and> (\<exists>m \<in> set ms. int (m_index m) \<le> s_start sp
                    \<and> s_end sp \<le> int (m_index m) + int (length (m_text m)))"
      "sorted_wrt (\<lambda>a b. s_end a \<le> s_start b) spans'"
      by simp_all
    from False have inner: "0 \<le> indexOf (m_text m) v" "v \<noteq> []" by simp_all
    from indexOf_found [OF inner(1)]
    have fit: "nat (indexOf (m_text m) v) + length v \<le> length (m_text m)" by simp
    with inner have here: "int (m_index m) \<le> s" "s + int (length v) \<le> int (m_index m) + int (length (m_text m))"
      "s < s + int (length v)"
      by (simp_all add: s_def)
    have before: "s + int (length v) \<le> s_start sp" if "sp \<in> set spans'" for sp
    proof -
      from ih(1) that obtain b where "b \<in> set ms" "int (m_index b) \<le> s_start sp" by blast
      with first here(2) show ?thesis by fastforce
    qed
    from ih here before show ?thesis
      unfolding spans by (auto 0 3)
  qed
qed

lemma take_drop_take:
  "i + n \<le> L \<Longrightarrow> take n (drop i (take L xs)) = take n (drop i xs)"
  by (simp add: drop_take min_def)

lemma defPass_values:
  assumes "defPass cx text ls file ms = Some (occs, spans)"
    and "\<forall>m \<in> set ms. m_text m = take (length (m_text m)) (drop (m_index m) text)"
  shows "map (span_text text) spans = map o_value occs"
  using assms
proof (induction ms arbitrary: occs spans)
  case Nil
  then show ?case by simp
next
  case (Cons m ms)
  define v where "v = extractFirstColorToken (trim (rx_group m 2))"
  define s where "s = int (m_index m) + indexOf (m_text m) v"
  show ?case
  proof (cases "v = [] \<or> indexOf (m_text m) v < 0")
    case True
    with Cons.prems(1) have "defPass cx text ls file ms = Some (occs, spans)"
      by (auto simp: Let_def v_def split: if_splits)
    with Cons.IH Cons.prems(2) show ?thesis by simp
  next
    case False
    with Cons.prems(1) obtain occs' spans' rng usage where
      rest: "defPass cx text ls file ms = Some (occs', spans')"
      and spans: "spans = \<lparr>s_start = s, s_end = s + int (length v)\<rparr> # spans'"
      and occs: "occs = VarOccur (''--'' @ rx_group m 1) v file rng usage # occs'"
      by (auto simp: Let_def v_def [symmetric] s_def [symmetric] split: Option.bind_splits)
    from Cons.IH [OF rest] Cons.prems(2) have ih: "map (span_text text) spans' = map o_value occs'"
      by simp
    from False have inner: "0 \<le> indexOf (m_text m) v" by simp
    define i where "i = nat (indexOf (m_text m) v)"
    from indexOf_found [OF inner]
    have found: "take (length v) (drop i (m_text m)) = v" "i + length v \<le> length (m_text m)"
      by (simp_all add: i_def)
    from Cons.prems(2) have whole: "m_text m = take (length (m_text m)) (drop (m_index m) text)"
      by simp
    have "take (length v) (drop i (take (length (m_text m)) (drop (m_index m) text)))
            = take (length v) (drop i (drop (m_index m) text))"
      using found(2) by (rule take_drop_take)
    with found(1) whole have "take (length v) (drop (m_index m + i) text) = v"
      by (simp add: add.commute)
    moreover have "nat s = m_index m + i" using inner by (simp add: s_def i_def nat_add_distrib)
    ultimately have "span_text text \<lparr>s_start = s, s_end = s + int (length v)\<rparr> = v"
      by (simp add: span_text_def)
    with ih show ?thesis by (simp add: spans occs)
  qed
qed

lemma refPass_spec:
  assumes "length ls \<le> 2 ^ 30"
  shows "\<exists>occs. refPass cx text ls file table ms = Some occs
           \<and> map o_name occs = filter (resolves table) (map (\<lambda>m. rx_group m 1) ms)
           \<and> (\<forall>occ \<in> set occs. isReference occ)"
proof (induction ms)
  case Nil
  show ?case by simp
next
  case (Cons m ms)
  then obtain occs where ih: "refPass cx text ls file table ms = Some occs"
    "map o_name occs = filter (resolves table) (map (\<lambda>m. rx_group m 1) ms)"
    "\<forall>occ \<in> set occs. isReference occ"
    by blast
  from locate_total [OF assms, of cx "text" "file" "int (m_index m)" "int (m_index m) + int (length (m_text m))" False]
  obtain rng usage where loc:
    "locate cx text ls file (int (m_index m)) (int (m_index m) + int (length (m_text m))) False = Some (rng, usage)"
    "\<not> u_isDefinition usage" by auto
  show ?case
  proof (cases "resolves table (rx_group m 1)")
    case False
    then have "table (rx_group m 1) = None \<or> table (rx_group m 1) = Some []"
      by (auto simp: resolves_def split: option.splits)
    with ih False show ?thesis
      by (auto simp: Let_def)
  next
    case True
    then obtain v where "table (rx_group m 1) = Some v" "v \<noteq> []"
      by (auto simp: resolves_def split: option.splits)
    with ih loc True show ?thesis
      by (auto simp: Let_def isReference_def)
  qed
qed

lemma litPass_spec:
  assumes "length ls \<le> 2 ^ 30" and "length spans \<le> 2 ^ 30"
  shows "\<exists>occs. litPass cx text ls file spans ms = Some occs
           \<and> map o_value occs = map m_text (filter (\<lambda>m. match_excluded spans m = Some False) ms)
           \<and> (\<forall>occ \<in> set occs. isLiteral occ \<and> \<not> isReference occ)"
proof (induction ms)
  case Nil
  show ?case by simp
next
  case (Cons m ms)
  then obtain occs where ih: "litPass cx text ls file spans ms = Some occs"
    "map o_value occs = map m_text (filter (\<lambda>m. match_excluded spans m = Some False) ms)"
    "\<forall>occ \<in> set occs. isLiteral occ \<and> \<not> isReference occ"
    by blast
  from locate_total [OF assms(1), of cx "text" "file" "int (m_index m)" "int (m_index m) + int (length (m_text m))" False]
  obtain rng usage where loc:
    "locate cx text ls file (int (m_index m)) (int (m_index m) + int (length (m_text m))) False = Some (rng, usage)"
    by auto
  from isExcluded_total [OF assms(2), of "int (m_index m)" "int (m_index m) + int (length (m_text m))"]
  obtain b where ex: "isExcluded spans (int (m_index m)) (int (m_index m) + int (length (m_text m))) = Some b"
    by blast
  show ?case
  proof (cases b)
    case True
    with ih ex show ?thesis by (simp add: Let_def match_excluded_def)
  next
    case False
    with ih ex loc show ?thesis
      by (simp add: Let_def match_excluded_def isLiteral_def isReference_def o_kind_def)
  qed
qed

subsection \<open>The scanner\<close>

lemma scan_parts:
  assumes tlen: "length text < 2 ^ 30" and ls: "length lineStarts \<le> 2 ^ 30"
  shows "\<exists>defOccs spans refOccs litOccs.
           defPass cx text lineStarts file (matchAll cssVarDefRegex text) = Some (defOccs, spans)
           \<and> length spans \<le> 2 ^ 30
           \<and> (\<forall>occ \<in> set defOccs. \<not> isReference occ \<and> \<not> isLiteral occ)
           \<and> map o_name refOccs = filter (resolves table) (map (\<lambda>m. rx_group m 1) (matchAll cssVarRefRegex text))
           \<and> (\<forall>occ \<in> set refOccs. isReference occ \<and> \<not> isLiteral occ)
           \<and> map o_value litOccs
               = map m_text (filter (\<lambda>m. match_excluded (sort_key s_start spans) m = Some False)
                   (matchAll hexRegex text @ matchAll rgbRegex text @ matchAll hslRegex text))
           \<and> (\<forall>occ \<in> set litOccs. isLiteral occ \<and> \<not> isReference occ)
           \<and> scanTextForColorOccurrences cx text lineStarts file table = Some (defOccs @ refOccs @ litOccs)"
proof -
  from defPass_total [OF ls, of cx "text" "file" "matchAll cssVarDefRegex text"]
  obtain defOccs spans where d:
    "defPass cx text lineStarts file (matchAll cssVarDefRegex text) = Some (defOccs, spans)"
    "length spans \<le> length (matchAll cssVarDefRegex text)"
    "\<forall>occ \<in> set defOccs. \<not> isReference occ \<and> \<not> isLiteral occ"
    by blast
  from d(2) matchAll_length [of cssVarDefRegex "text"] tlen
  have len: "length spans \<le> 2 ^ 30" by simp
  then have len': "length (sort_key s_start spans) \<le> 2 ^ 30" by simp
  from refPass_spec [OF ls, of cx "text" "file" table "matchAll cssVarRefRegex text"]
  obtain refOccs where r:
    "refPass cx text lineStarts file table (matchAll cssVarRefRegex text) = Some refOccs"
    "map o_name refOccs = filter (resolves table) (map (\<lambda>m. rx_group m 1) (matchAll cssVarRefRegex text))"
    "\<forall>occ \<in> set refOccs. isReference occ"
    by blast
  have r4: "\<forall>occ \<in> set refOccs. isReference occ \<and> \<not> isLiteral occ"
    using r(3) by (auto simp: isReference_def isLiteral_def o_kind_def split: ColorOccur.splits)
  from litPass_spec [OF ls len', of cx "text" "file" "matchAll hexRegex text"]
  obtain hexOccs where h:
    "litPass cx text lineStarts file (sort_key s_start spans) (matchAll hexRegex text) = Some hexOccs"
    "map o_value hexOccs = map m_text (filter (\<lambda>m. match_excluded (sort_key s_start spans) m = Some False) (matchAll hexRegex text))"
    "\<forall>occ \<in> set hexOccs. isLiteral occ \<and> \<not> isReference occ"
    by blast
  from litPass_spec [OF ls len', of cx "text" "file" "matchAll rgbRegex text"]
  obtain rgbOccs where g:
    "litPass cx text lineStarts file (sort_key s_start spans) (matchAll rgbRegex text) = Some rgbOccs"
    "map o_value rgbOccs = map m_text (filter (\<lambda>m. match_excluded (sort_key s_start spans) m = Some False) (matchAll rgbRegex text))"
    "\<forall>occ \<in> set rgbOccs. isLiteral occ \<and> \<not> isReference occ"
    by blast
  from litPass_spec [OF ls len', of cx "text" "file" "matchAll hslRegex text"]
  obtain hslOccs where l:
    "litPass cx text lineStarts file (sort_key s_start spans) (matchAll hslRegex text) = Some hslOccs"
    "map o_value hslOccs = map m_text (filter (\<lambda>m. match_excluded (sort_key s_start spans) m = Some False) (matchAll hslRegex text))"
    "\<forall>occ \<in> set hslOccs. isLiteral occ \<and> \<not> isReference occ"
    by blast
  have scan: "scanTextForColorOccurrences cx text lineStarts file table
                = Some (defOccs @ refOccs @ (hexOccs @ rgbOccs @ hslOccs))"
    by (simp add: scanTextForColorOccurrences_def d(1) r(1) h(1) g(1) l(1))
  have lit: "map o_value (hexOccs @ rgbOccs @ hslOccs)
               = map m_text (filter (\<lambda>m. match_excluded (sort_key s_start spans) m = Some False)
                   (matchAll hexRegex text @ matchAll rgbRegex text @ matchAll hslRegex text))"
    by (simp add: h(2) g(2) l(2))
  have all: "\<forall>occ \<in> set (hexOccs @ rgbOccs @ hslOccs). isLiteral occ \<and> \<not> isReference occ"
    using h(3) g(3) l(3) by auto
  from d(1) len d(3) r(2) r4 lit all scan show ?thesis by blast
qed

lemma filter_parts:
  assumes "\<forall>x \<in> set xs. \<not> P x" and "\<forall>x \<in> set ys. P x" and "\<forall>x \<in> set zs. \<not> P x"
  shows "filter P (xs @ ys @ zs) = ys"
  using assms by (simp add: filter_empty_conv filter_id_conv)

text \<open>
  Claim C5. The scanner returns (for a text of fewer than \<open>2 ^ 30\<close> code units and a
  line index no longer than that) the records of pass 1, then the records of pass 2, then
  the records of pass 3, and nothing else. The records of pass 1 are definitions, one for
  each exclusion span, whose text is their value and which lies in a match of the
  definition pattern; the records of pass 3 are literals, one for each literal match that
  is not excluded. Both are the same for every table. The
  records of pass 2 are references: in order, one for each reference \<open>var(--name)\<close> of the
  text whose name the table resolves, and none for a reference the table does not
  resolve. So a name without entry in the table, as in \<open>var(--undefined-token)\<close>, is the
  name of no reference record, and its references add no record of any kind.
\<close>

theorem unresolved_reference_emits_nothing:
  assumes "length text < 2 ^ 30" and "length lineStarts \<le> 2 ^ 30"
  shows "\<exists>defOccs spans litOccs.
           defPass cx text lineStarts file (matchAll cssVarDefRegex text) = Some (defOccs, spans)
           \<and> length spans \<le> length (matchAll cssVarDefRegex text)
           \<and> map o_value defOccs = map (span_text text) spans
           \<and> (\<forall>sp \<in> set spans. s_start sp < s_end sp
                 \<and> (\<exists>m \<in> set (matchAll cssVarDefRegex text).
                        int (m_index m) \<le> s_start sp
                        \<and> s_end sp \<le> int (m_index m) + int (length (m_text m))))
           \<and> (\<forall>occ \<in> set defOccs. \<not> isReference occ \<and> \<not> isLiteral occ)
           \<and> map o_value litOccs
               = map m_text (filter (\<lambda>m. match_excluded (sort_key s_start spans) m = Some False)
                   (matchAll hexRegex text @ matchAll rgbRegex text @ matchAll hslRegex text))
           \<and> (\<forall>occ \<in> set litOccs. isLiteral occ \<and> \<not> isReference occ)
           \<and> (\<forall>globalVarValueByName. \<exists>refOccs.
                 scanTextForColorOccurrences cx text lineStarts file globalVarValueByName
                   = Some (defOccs @ refOccs @ litOccs)
                 \<and> (\<forall>occ \<in> set refOccs. isReference occ \<and> \<not> isLiteral occ)
                 \<and> map o_name refOccs
                     = filter (resolves globalVarValueByName)
                         (map (\<lambda>m. rx_group m 1) (matchAll cssVarRefRegex text))
                 \<and> map o_name (filter isReference (defOccs @ refOccs @ litOccs))
                     = filter (resolves globalVarValueByName)
                         (map (\<lambda>m. rx_group m 1) (matchAll cssVarRefRegex text))
                 \<and> (\<forall>name. globalVarValueByName name = None
                       \<longrightarrow> name \<notin> o_name ` set (filter isReference (defOccs @ refOccs @ litOccs))))"
proof -
  note ls = assms(2)
  from defPass_total [OF ls, of cx "text" "file" "matchAll cssVarDefRegex text"]
  obtain defOccs spans where d:
    "defPass cx text lineStarts file (matchAll cssVarDefRegex text) = Some (defOccs, spans)"
    "length spans \<le> length (matchAll cssVarDefRegex text)"
    "\<forall>occ \<in> set defOccs. \<not> isReference occ \<and> \<not> isLiteral occ"
    by blast
  from d(2) matchAll_length [of cssVarDefRegex "text"] assms(1)
  have len: "length (sort_key s_start spans) \<le> 2 ^ 30" by simp
  have vals: "map o_value defOccs = map (span_text text) spans"
  proof (rule defPass_values [symmetric, OF d(1)])
    show "\<forall>m \<in> set (matchAll cssVarDefRegex text).
            m_text m = take (length (m_text m)) (drop (m_index m) text)"
      using matchAll_bounds [of _ cssVarDefRegex "text"] by blast
  qed
  from litPass_spec [OF ls len, of cx "text" "file" "matchAll hexRegex text"]
  obtain hexOccs where h:
    "litPass cx text lineStarts file (sort_key s_start spans) (matchAll hexRegex text) = Some hexOccs"
    "map o_value hexOccs = map m_text (filter (\<lambda>m. match_excluded (sort_key s_start spans) m = Some False) (matchAll hexRegex text))"
    "\<forall>occ \<in> set hexOccs. isLiteral occ \<and> \<not> isReference occ"
    by blast
  from litPass_spec [OF ls len, of cx "text" "file" "matchAll rgbRegex text"]
  obtain rgbOccs where g:
    "litPass cx text lineStarts file (sort_key s_start spans) (matchAll rgbRegex text) = Some rgbOccs"
    "map o_value rgbOccs = map m_text (filter (\<lambda>m. match_excluded (sort_key s_start spans) m = Some False) (matchAll rgbRegex text))"
    "\<forall>occ \<in> set rgbOccs. isLiteral occ \<and> \<not> isReference occ"
    by blast
  from litPass_spec [OF ls len, of cx "text" "file" "matchAll hslRegex text"]
  obtain hslOccs where l:
    "litPass cx text lineStarts file (sort_key s_start spans) (matchAll hslRegex text) = Some hslOccs"
    "map o_value hslOccs = map m_text (filter (\<lambda>m. match_excluded (sort_key s_start spans) m = Some False) (matchAll hslRegex text))"
    "\<forall>occ \<in> set hslOccs. isLiteral occ \<and> \<not> isReference occ"
    by blast
  define litOccs where "litOccs = hexOccs @ rgbOccs @ hslOccs"
  have lit: "map o_value litOccs
               = map m_text (filter (\<lambda>m. match_excluded (sort_key s_start spans) m = Some False)
                   (matchAll hexRegex text @ matchAll rgbRegex text @ matchAll hslRegex text))"
    by (simp add: litOccs_def h(2) g(2) l(2))
  have all: "\<forall>occ \<in> set litOccs. isLiteral occ \<and> \<not> isReference occ"
    using h(3) g(3) l(3) by (auto simp: litOccs_def)
  have refs: "\<exists>refOccs.
                 scanTextForColorOccurrences cx text lineStarts file table
                   = Some (defOccs @ refOccs @ litOccs)
                 \<and> (\<forall>occ \<in> set refOccs. isReference occ \<and> \<not> isLiteral occ)
                 \<and> map o_name refOccs
                     = filter (resolves table) (map (\<lambda>m. rx_group m 1) (matchAll cssVarRefRegex text))
                 \<and> map o_name (filter isReference (defOccs @ refOccs @ litOccs))
                     = filter (resolves table) (map (\<lambda>m. rx_group m 1) (matchAll cssVarRefRegex text))
                 \<and> (\<forall>name. table name = None
                       \<longrightarrow> name \<notin> o_name ` set (filter isReference (defOccs @ refOccs @ litOccs)))"
    for table
  proof -
    from refPass_spec [OF ls, of cx "text" "file" table "matchAll cssVarRefRegex text"]
    obtain refOccs where r:
      "refPass cx text lineStarts file table (matchAll cssVarRefRegex text) = Some refOccs"
      "map o_name refOccs = filter (resolves table) (map (\<lambda>m. rx_group m 1) (matchAll cssVarRefRegex text))"
      "\<forall>occ \<in> set refOccs. isReference occ"
      by blast
    have r4: "\<forall>occ \<in> set refOccs. isReference occ \<and> \<not> isLiteral occ"
      using r(3) by (auto simp: isReference_def isLiteral_def o_kind_def split: ColorOccur.splits)
    have scan: "scanTextForColorOccurrences cx text lineStarts file table
                  = Some (defOccs @ refOccs @ litOccs)"
      by (simp add: scanTextForColorOccurrences_def d(1) r(1) h(1) g(1) l(1) litOccs_def)
    have f: "filter isReference (defOccs @ refOccs @ litOccs) = refOccs"
      using d(3) r4 all by (intro filter_parts) auto
    have nn: "name \<notin> o_name ` set refOccs" if "table name = None" for name
    proof
      assume "name \<in> o_name ` set refOccs"
      then have "name \<in> set (map o_name refOccs)" by simp
      then have "resolves table name" unfolding r(2) by simp
      with that show False by (simp add: resolves_def)
    qed
    show ?thesis
    proof (intro exI conjI)
      show "scanTextForColorOccurrences cx text lineStarts file table
              = Some (defOccs @ refOccs @ litOccs)"
        by (rule scan)
      show "\<forall>occ \<in> set refOccs. isReference occ \<and> \<not> isLiteral occ" by (rule r4)
      show "map o_name refOccs
              = filter (resolves table) (map (\<lambda>m. rx_group m 1) (matchAll cssVarRefRegex text))"
        by (rule r(2))
      show "map o_name (filter isReference (defOccs @ refOccs @ litOccs))
              = filter (resolves table) (map (\<lambda>m. rx_group m 1) (matchAll cssVarRefRegex text))"
        unfolding f by (rule r(2))
      show "\<forall>name. table name = None
              \<longrightarrow> name \<notin> o_name ` set (filter isReference (defOccs @ refOccs @ litOccs))"
        unfolding f using nn by blast
    qed
  qed
  show ?thesis
  proof (intro exI conjI)
    show "defPass cx text lineStarts file (matchAll cssVarDefRegex text) = Some (defOccs, spans)"
      by (rule d(1))
    show "length spans \<le> length (matchAll cssVarDefRegex text)" by (rule d(2))
    show "map o_value defOccs = map (span_text text) spans" by (rule vals)
    show "\<forall>sp \<in> set spans. s_start sp < s_end sp
            \<and> (\<exists>m \<in> set (matchAll cssVarDefRegex text).
                   int (m_index m) \<le> s_start sp
                   \<and> s_end sp \<le> int (m_index m) + int (length (m_text m)))"
      using defPass_spans [OF d(1) matchAll_sorted] by blast
    show "\<forall>occ \<in> set defOccs. \<not> isReference occ \<and> \<not> isLiteral occ" by (rule d(3))
    show "map o_value litOccs
               = map m_text (filter (\<lambda>m. match_excluded (sort_key s_start spans) m = Some False)
                   (matchAll hexRegex text @ matchAll rgbRegex text @ matchAll hslRegex text))"
      by (rule lit)
    show "\<forall>occ \<in> set litOccs. isLiteral occ \<and> \<not> isReference occ" by (rule all)
    show "\<forall>globalVarValueByName. \<exists>refOccs.
                 scanTextForColorOccurrences cx text lineStarts file globalVarValueByName
                   = Some (defOccs @ refOccs @ litOccs)
                 \<and> (\<forall>occ \<in> set refOccs. isReference occ \<and> \<not> isLiteral occ)
                 \<and> map o_name refOccs
                     = filter (resolves globalVarValueByName)
                         (map (\<lambda>m. rx_group m 1) (matchAll cssVarRefRegex text))
                 \<and> map o_name (filter isReference (defOccs @ refOccs @ litOccs))
                     = filter (resolves globalVarValueByName)
                         (map (\<lambda>m. rx_group m 1) (matchAll cssVarRefRegex text))
                 \<and> (\<forall>name. globalVarValueByName name = None
                       \<longrightarrow> name \<notin> o_name ` set (filter isReference (defOccs @ refOccs @ litOccs)))"
      by (intro allI refs)
  qed
qed

theorem unresolved_reference_emits_nothing_witness:
  "length sample_sheet < 2 ^ 30
   \<and> length (buildLineStartIndex sample_sheet) \<le> 2 ^ 30
   \<and> [''--border'' \<mapsto> ''#aabbcc''] ''--undefined-token'' = None
   \<and> map (\<lambda>m. rx_group m 1) (matchAll cssVarRefRegex sample_sheet) = [''--border'', ''--undefined-token'']
   \<and> map_option (map o_name \<circ> filter isReference)
         (scanTextForColorOccurrences no_context sample_sheet (buildLineStartIndex sample_sheet)
            ''a.css'' [''--border'' \<mapsto> ''#aabbcc''])
       = Some [''--border'']
   \<and> map_option (map (\<lambda>occ. (isReference occ, isLiteral occ, o_value occ)))
         (scanTextForColorOccurrences no_context sample_sheet (buildLineStartIndex sample_sheet)
            ''a.css'' [''--border'' \<mapsto> ''#aabbcc''])
       = Some [(False, False, ''#aabbcc''), (True, False, ''#aabbcc''), (False, True, ''#FFF'')]"
proof -
  have len: "length sample_sheet < 2 ^ 30" by (simp add: sample_sheet_def)
  have ls: "length (buildLineStartIndex sample_sheet) \<le> 2 ^ 30"
    using length_buildLineStartIndex [of sample_sheet] len by simp
  have none: "[''--border'' \<mapsto> ''#aabbcc''] ''--undefined-token'' = None" by simp
  have refs: "map (\<lambda>m. rx_group m 1) (matchAll cssVarRefRegex sample_sheet)
                = [''--border'', ''--undefined-token'']"
    by code_simp
  have res: "filter (resolves [''--border'' \<mapsto> ''#aabbcc'']) [''--border'', ''--undefined-token'']
               = [''--border'']"
    by (simp add: resolves_def)
  have records: "map_option (map (\<lambda>occ. (isReference occ, isLiteral occ, o_value occ)))
         (scanTextForColorOccurrences no_context sample_sheet (buildLineStartIndex sample_sheet)
            ''a.css'' [''--border'' \<mapsto> ''#aabbcc''])
       = Some [(False, False, ''#aabbcc''), (True, False, ''#aabbcc''), (False, True, ''#FFF'')]"
    by code_simp
  from unresolved_reference_emits_nothing [OF len ls, of no_context "''a.css''"]
  obtain defOccs and spans :: "span list" and litOccs where
    "\<forall>table. \<exists>refOccs.
        scanTextForColorOccurrences no_context sample_sheet (buildLineStartIndex sample_sheet)
          ''a.css'' table = Some (defOccs @ refOccs @ litOccs)
        \<and> (\<forall>occ \<in> set refOccs. isReference occ \<and> \<not> isLiteral occ)
        \<and> map o_name refOccs
            = filter (resolves table) (map (\<lambda>m. rx_group m 1) (matchAll cssVarRefRegex sample_sheet))
        \<and> map o_name (filter isReference (defOccs @ refOccs @ litOccs))
            = filter (resolves table) (map (\<lambda>m. rx_group m 1) (matchAll cssVarRefRegex sample_sheet))
        \<and> (\<forall>name. table name = None
              \<longrightarrow> name \<notin> o_name ` set (filter isReference (defOccs @ refOccs @ litOccs)))"
    by (elim exE conjE)
  then obtain refOccs where
    "scanTextForColorOccurrences no_context sample_sheet (buildLineStartIndex sample_sheet)
       ''a.css'' [''--border'' \<mapsto> ''#aabbcc''] = Some (defOccs @ refOccs @ litOccs)"
    "map o_name (filter isReference (defOccs @ refOccs @ litOccs))
       = filter (resolves [''--border'' \<mapsto> ''#aabbcc''])
           (map (\<lambda>m. rx_group m 1) (matchAll cssVarRefRegex sample_sheet))"
    by (elim allE [of _ "[''--border'' \<mapsto> ''#aabbcc'']"] exE conjE)
  then have names: "map_option (map o_name \<circ> filter isReference)
         (scanTextForColorOccurrences no_context sample_sheet (buildLineStartIndex sample_sheet)
            ''a.css'' [''--border'' \<mapsto> ''#aabbcc''])
       = Some [''--border'']"
    unfolding refs res by simp
  show ?thesis
    by (intro conjI len ls none refs names records)
qed

text \<open>
  Claim C6. The exclusion spans pass 1 records are the places of the values of the variable
  definitions it emits. They are sorted and apart, so the binary search of \<open>isExcluded\<close>
  finds the span that holds a given range: every match of the hex, \<open>rgb\<close> and \<open>hsl\<close>
  patterns whose range lies within an exclusion span is excluded. The literal occurrences
  of the result are exactly the matches \<open>isExcluded\<close> rejects, so the text of a
  definition's value is never a literal occurrence as well.
\<close>

theorem excluded_literals_skipped:
  assumes "length text < 2 ^ 30" and "length lineStarts \<le> 2 ^ 30"
  shows "\<exists>defOccs spans occs.
           defPass cx text lineStarts file (matchAll cssVarDefRegex text) = Some (defOccs, spans)
           \<and> scanTextForColorOccurrences cx text lineStarts file globalVarValueByName = Some occs
           \<and> defOccs = filter (\<lambda>occ. \<not> isReference occ \<and> \<not> isLiteral occ) occs
           \<and> map (span_text text) spans = map o_value defOccs
           \<and> (\<forall>m \<in> set (matchAll hexRegex text @ matchAll rgbRegex text @ matchAll hslRegex text).
                 (\<exists>sp \<in> set spans. match_in_span m sp)
                 \<longrightarrow> match_excluded (sort_key s_start spans) m = Some True)
           \<and> map o_value (filter isLiteral occs)
               = map m_text (filter (\<lambda>m. match_excluded (sort_key s_start spans) m = Some False)
                   (matchAll hexRegex text @ matchAll rgbRegex text @ matchAll hslRegex text))"
proof -
  from scan_parts [OF assms, of cx "file" globalVarValueByName]
  obtain defOccs spans refOccs litOccs where p:
    "defPass cx text lineStarts file (matchAll cssVarDefRegex text) = Some (defOccs, spans)"
    "length spans \<le> 2 ^ 30"
    "\<forall>occ \<in> set defOccs. \<not> isReference occ \<and> \<not> isLiteral occ"
    "\<forall>occ \<in> set refOccs. isReference occ \<and> \<not> isLiteral occ"
    "map o_value litOccs
       = map m_text (filter (\<lambda>m. match_excluded (sort_key s_start spans) m = Some False)
           (matchAll hexRegex text @ matchAll rgbRegex text @ matchAll hslRegex text))"
    "\<forall>occ \<in> set litOccs. isLiteral occ \<and> \<not> isReference occ"
    "scanTextForColorOccurrences cx text lineStarts file globalVarValueByName
       = Some (defOccs @ refOccs @ litOccs)"
    by blast
  have f1: "filter (\<lambda>occ. \<not> isReference occ \<and> \<not> isLiteral occ) (defOccs @ refOccs @ litOccs) = defOccs"
    using p(3,4,6) by (simp add: filter_empty_conv filter_id_conv)
  have f2: "filter isLiteral (defOccs @ refOccs @ litOccs) = litOccs"
    using p(3,4,6) by (simp add: filter_empty_conv filter_id_conv)
  have sp: "\<forall>sp \<in> set spans. s_start sp < s_end sp" "sorted_wrt (\<lambda>a b. s_end a \<le> s_start b) spans"
    using defPass_spans [OF p(1) matchAll_sorted] by blast+
  have "sorted (map s_start spans)"
    unfolding sorted_map
  proof (rule sorted_wrt_mono_rel [OF _ sp(2)])
    fix a b assume "a \<in> set spans" "b \<in> set spans" "s_end a \<le> s_start b"
    with sp(1) show "s_start a \<le> s_start b" by fastforce
  qed
  then have sorted: "sort_key s_start spans = spans" by (rule sort_key_id_if_sorted)
  have vals: "map (span_text text) spans = map o_value defOccs"
    using p(1)
  proof (rule defPass_values)
    show "\<forall>m \<in> set (matchAll cssVarDefRegex text).
            m_text m = take (length (m_text m)) (drop (m_index m) text)"
      using matchAll_bounds [of _ cssVarDefRegex "text"] by blast
  qed
  have ex: "match_excluded (sort_key s_start spans) m = Some True"
    if m: "m \<in> set (matchAll hexRegex text @ matchAll rgbRegex text @ matchAll hslRegex text)"
      and inside: "\<exists>sp \<in> set spans. match_in_span m sp" for m
  proof -
    from m have ne: "m_text m \<noteq> []"
      by (auto dest: hex_match_nonempty rgb_match_nonempty hsl_match_nonempty)
    from inside obtain sp where "sp \<in> set spans" "s_start sp \<le> int (m_index m)"
      "int (m_index m) + int (length (m_text m)) \<le> s_end sp"
      by (auto simp: match_in_span_def)
    note c = this
    have "int (m_index m) < int (m_index m) + int (length (m_text m))" using ne by simp
    from isExcluded_contained [OF p(2) sp(2) sp(1) c(1) c(2) c(3) this]
    show ?thesis
      unfolding sorted match_excluded_def .
  qed
  show ?thesis
  proof (intro exI conjI)
    show "defPass cx text lineStarts file (matchAll cssVarDefRegex text) = Some (defOccs, spans)"
      by (rule p(1))
    show "scanTextForColorOccurrences cx text lineStarts file globalVarValueByName
            = Some (defOccs @ refOccs @ litOccs)"
      by (rule p(7))
    show "defOccs = filter (\<lambda>occ. \<not> isReference occ \<and> \<not> isLiteral occ) (defOccs @ refOccs @ litOccs)"
      unfolding f1 ..
    show "map (span_text text) spans = map o_value defOccs" by (rule vals)
    show "\<forall>m \<in> set (matchAll hexRegex text @ matchAll rgbRegex text @ matchAll hslRegex text).
            (\<exists>sp \<in> set spans. match_in_span m sp)
            \<longrightarrow> match_excluded (sort_key s_start spans) m = Some True"
      using ex by blast
    show "map o_value (filter isLiteral (defOccs @ refOccs @ litOccs))
            = map m_text (filter (\<lambda>m. match_excluded (sort_key s_start spans) m = Some False)
                (matchAll hexRegex text @ matchAll rgbRegex text @ matchAll hslRegex text))"
      unfolding f2 by (rule p(5))
  qed
qed


theorem excluded_literals_skipped_witness:
  "length sample_sheet < 2 ^ 30
   \<and> length (buildLineStartIndex sample_sheet) \<le> 2 ^ 30
   \<and> map_option snd (defPass no_context sample_sheet (buildLineStartIndex sample_sheet) ''a.css''
         (matchAll cssVarDefRegex sample_sheet)) = Some [\<lparr>s_start = 18, s_end = 25\<rparr>]
   \<and> matchAll hexRegex sample_sheet
       = [\<lparr>m_index = 18, m_text = ''#aabbcc'', m_groups = []\<rparr>,
          \<lparr>m_index = 118, m_text = ''#FFF'', m_groups = []\<rparr>]
   \<and> match_in_span \<lparr>m_index = 18, m_text = ''#aabbcc'', m_groups = []\<rparr> \<lparr>s_start = 18, s_end = 25\<rparr>
   \<and> match_excluded [\<lparr>s_start = 18, s_end = 25\<rparr>] \<lparr>m_index = 18, m_text = ''#aabbcc'', m_groups = []\<rparr>
       = Some True
   \<and> map_option (map o_value \<circ> filter isLiteral)
         (scanTextForColorOccurrences no_context sample_sheet (buildLineStartIndex sample_sheet)
            ''a.css'' [''--border'' \<mapsto> ''#aabbcc''])
       = Some [''#FFF'']"
proof -
  have len: "length sample_sheet < 2 ^ 30" by (simp add: sample_sheet_def)
  have ls: "length (buildLineStartIndex sample_sheet) \<le> 2 ^ 30"
    using length_buildLineStartIndex [of sample_sheet] len by simp
  have spans: "map_option snd (defPass no_context sample_sheet (buildLineStartIndex sample_sheet) ''a.css''
         (matchAll cssVarDefRegex sample_sheet)) = Some [\<lparr>s_start = 18, s_end = 25\<rparr>]"
    by code_simp
  have hex: "matchAll hexRegex sample_sheet
       = [\<lparr>m_index = 18, m_text = ''#aabbcc'', m_groups = []\<rparr>,
          \<lparr>m_index = 118, m_text = ''#FFF'', m_groups = []\<rparr>]"
    by code_simp
  have lits: "map_option (map o_value \<circ> filter isLiteral)
         (scanTextForColorOccurrences no_context sample_sheet (buildLineStartIndex sample_sheet)
            ''a.css'' [''--border'' \<mapsto> ''#aabbcc''])
       = Some [''#FFF'']"
    by code_simp
  have inside: "match_in_span \<lparr>m_index = 18, m_text = ''#aabbcc'', m_groups = []\<rparr> \<lparr>s_start = 18, s_end = 25\<rparr>"
    by (simp add: match_in_span_def)
  from excluded_literals_skipped
    [OF len ls, of no_context "''a.css''" "[''--border'' \<mapsto> ''#aabbcc'']"]
  obtain defOccs sps where
    d: "defPass no_context sample_sheet (buildLineStartIndex sample_sheet) ''a.css''
          (matchAll cssVarDefRegex sample_sheet) = Some (defOccs, sps)"
    and e: "\<forall>m \<in> set (matchAll hexRegex sample_sheet @ matchAll rgbRegex sample_sheet
                    @ matchAll hslRegex sample_sheet).
              (\<exists>sp \<in> set sps. match_in_span m sp)
              \<longrightarrow> match_excluded (sort_key s_start sps) m = Some True"
    by blast
  from d spans have sps: "sps = [\<lparr>s_start = 18, s_end = 25\<rparr>]" by simp
  have "\<lparr>m_index = 18, m_text = ''#aabbcc'', m_groups = []\<rparr>
          \<in> set (matchAll hexRegex sample_sheet @ matchAll rgbRegex sample_sheet
                    @ matchAll hslRegex sample_sheet)"
    unfolding hex by simp
  with e inside have "match_excluded [\<lparr>s_start = 18, s_end = 25\<rparr>]
                        \<lparr>m_index = 18, m_text = ''#aabbcc'', m_groups = []\<rparr> = Some True"
    unfolding sps by fastforce
  with len ls spans hex inside lits show ?thesis by simp
qed

subsection \<open>The stack of the theme classifier\<close>
















subsection \<open>The hits of the variable definitions\<close>






subsection \<open>The de-dupe of the hits\<close>














end
